theory Spec2Isabelle
  imports Complex_Main "HOL-Library.Word"
begin

section \<open>Data model of \<^verbatim>\<open>mesh_sphere_packing/tetmesh.py\<close>\<close>

text \<open>
  The arrays of the module are NumPy arrays of fixed row width. A row of a
  \<^verbatim>\<open>float64[N,3]\<close> array is a triple of coordinates and a row of an integer
  \<^verbatim>\<open>[M,3]\<close> array is a triple of indices. Coordinates are idealised as real
  numbers: addition, comparison and absolute value are the exact ones, there is no
  rounding, no NaN and no infinity. Indices held in Python objects are unbounded
  integers; the \<^verbatim>\<open>int32\<close> arrays that \<^verbatim>\<open>write_msh\<close> builds are 32-bit words.

  Sphere pieces and boundary patches are objects that the module mutates in place. They
  are modelled as values that every function returns updated; the objects of one list
  are taken to be distinct (no two entries alias the same object or share an array).
\<close>

type_synonym point = "real \<times> real \<times> real"

type_synonym tri = "int \<times> int \<times> int"

text \<open>\<^verbatim>\<open>domain.L\<close>: the three edge lengths of the box.\<close>

record Domain =
  L :: point

text \<open>
  What a sphere piece and a \<^verbatim>\<open>boundaryPLC\<close> object share: \<^verbatim>\<open>points\<close> and
  \<^verbatim>\<open>tris\<close>. Further attributes of a boundary patch (\<^verbatim>\<open>face_markers\<close>,
  \<^verbatim>\<open>holes\<close>) live in the extension part of the record scheme.
\<close>

record PLC =
  points :: "point list"
  tris :: "tri list"

text \<open>\<^verbatim>\<open>sphere.id\<close> and \<^verbatim>\<open>sphere.x\<close> (the centre).\<close>

record Sphere =
  sphere_id :: int
  sphere_x :: point

record SpherePiece = PLC +
  sphere :: Sphere
  is_hole :: bool

text \<open>The exceptions that the modelled code can raise.\<close>

datatype error = IndexError | KeyError | ValueError | UnicodeDecodeError | ArrayError

section \<open>Boundary replication\<close>

text \<open>
  \<^verbatim>\<open>translate = np.array([[domain.L[j] if j==i else 0. for j in range(3)]])\<close>
\<close>

definition translate :: "Domain \<Rightarrow> nat \<Rightarrow> point" where
  "translate domain i =
     (case L domain of (Lx, Ly, Lz) \<Rightarrow>
        (if 0 = i then Lx else 0, if 1 = i then Ly else 0, if 2 = i then Lz else 0))"

text \<open>\<^verbatim>\<open>ub.points += translate\<close>: the row vector is broadcast over all rows.\<close>

definition add_point :: "point \<Rightarrow> point \<Rightarrow> point" where
  "add_point p t = (case p of (x, y, z) \<Rightarrow> case t of (tx, ty, tz) \<Rightarrow> (x + tx, y + ty, z + tz))"

text \<open>
  \<^verbatim>\<open>upper_boundaries = deepcopy(lower_boundaries)\<close>, then each copy is translated
  along the axis of its position in the list; the result is
  \<^verbatim>\<open>lower_boundaries + upper_boundaries\<close>.
\<close>

definition duplicate_lower_boundaries ::
  "Domain \<Rightarrow> 'a PLC_scheme list \<Rightarrow> 'a PLC_scheme list" where
  "duplicate_lower_boundaries domain lower_boundaries =
     (let upper_boundaries =
        map (\<lambda>(i, ub). ub\<lparr>points := map (\<lambda>p. add_point p (translate domain i)) (points ub)\<rparr>)
          (enumerate 0 lower_boundaries)
      in lower_boundaries @ upper_boundaries)"

section \<open>Facet and hole assembly\<close>

text \<open>
  \<^verbatim>\<open>build_facet_list\<close>. The six \<^verbatim>\<open>all_facets[k]\<close> subscripts raise
  \<^verbatim>\<open>IndexError\<close> when there are fewer than six boundaries. \<^verbatim>\<open>np.vstack\<close> and
  \<^verbatim>\<open>np.hstack\<close> concatenate the rows.
\<close>

definition build_facet_list ::
  "SpherePiece list \<Rightarrow> 'a PLC_scheme list \<Rightarrow> error + (tri list \<times> int list)" where
  "build_facet_list sphere_pieces boundaries =
     (let all_facets = map tris boundaries in
      if length all_facets < 6 then Inl IndexError
      else
        let all_markers =
              [replicate (length (all_facets ! 0)) 1, replicate (length (all_facets ! 1)) 3,
               replicate (length (all_facets ! 2)) 5, replicate (length (all_facets ! 3)) 2,
               replicate (length (all_facets ! 4)) 4, replicate (length (all_facets ! 5)) 6];
            mark_offset = 7
        in Inr (concat (all_facets @ map tris sphere_pieces),
                concat (all_markers @
                  map (\<lambda>p. replicate (length (tris p)) (sphere_id (sphere p) + mark_offset))
                    sphere_pieces)))"

text \<open>
  \<^verbatim>\<open>build_hole_list\<close>: the centres of the pieces flagged as holes, stacked, or the
  empty \<^verbatim>\<open>(0,3)\<close> array.
\<close>

definition build_hole_list :: "SpherePiece list \<Rightarrow> point list" where
  "build_hole_list sphere_pieces =
     (let all_holes = map (\<lambda>p. sphere_x (sphere p)) (filter is_hole sphere_pieces)
      in if length all_holes \<noteq> 0 then all_holes else [])"

section \<open>Vertex merge and deduplication\<close>

text \<open>
  \<^verbatim>\<open>np.isclose(a, b)\<close> with NumPy's default tolerances \<^verbatim>\<open>rtol=1e-05\<close> and
  \<^verbatim>\<open>atol=1e-08\<close>: \<^verbatim>\<open>abs(a - b) <= atol + rtol * abs(b)\<close>.
\<close>

definition isclose :: "real \<Rightarrow> real \<Rightarrow> bool" where
  "isclose a b \<longleftrightarrow> \<bar>a - b\<bar> \<le> 1 / 10 ^ 8 + 1 / 10 ^ 5 * \<bar>b\<bar>"

text \<open>
  The disjunction \<^verbatim>\<open>on_x_lower | on_y_lower | on_z_lower | on_x_upper | on_y_upper |
  on_z_upper\<close> for one row of \<^verbatim>\<open>piece_points\<close>.
\<close>

definition on_boundary :: "Domain \<Rightarrow> point \<Rightarrow> bool" where
  "on_boundary domain p =
     (case p of (x, y, z) \<Rightarrow> case L domain of (Lx, Ly, Lz) \<Rightarrow>
        isclose x 0 \<or> isclose y 0 \<or> isclose z 0 \<or>
        isclose x Lx \<or> isclose y Ly \<or> isclose z Lz)"

text \<open>\<^verbatim>\<open>tris += vcount\<close> on one row.\<close>

definition add_tri :: "tri \<Rightarrow> int \<Rightarrow> tri" where
  "add_tri t n = (case t of (a, b, c) \<Rightarrow> (a + n, b + n, c + n))"

text \<open>
  The two offset loops of \<^verbatim>\<open>build_point_list\<close> have the same body: the triangles
  of each source are shifted in place by the running vertex count, which then grows by
  the number of points of the source. The first loop starts at \<^verbatim>\<open>0\<close>, the second at
  \<^verbatim>\<open>len(bpp_idx)\<close>.
\<close>

fun offset_tris :: "int \<Rightarrow> 'a PLC_scheme list \<Rightarrow> 'a PLC_scheme list" where
  "offset_tris vcount [] = []"
| "offset_tris vcount (p # ps) =
     p\<lparr>tris := map (\<lambda>t. add_tri t vcount) (tris p)\<rparr>
       # offset_tris (vcount + int (length (points p))) ps"

text \<open>The Euclidean distance that the k-d tree measures.\<close>

definition dist_point :: "point \<Rightarrow> point \<Rightarrow> real" where
  "dist_point p q =
     (case p of (x, y, z) \<Rightarrow> case q of (u, v, w) \<Rightarrow>
        sqrt ((x - u)\<^sup>2 + (y - v)\<^sup>2 + (z - w)\<^sup>2))"

text \<open>
  \<^verbatim>\<open>sorted(cKDTree(pts).query_pairs(r), key=lambda x: x[0])\<close>: all pairs
  \<^verbatim>\<open>(i, j)\<close> with \<^verbatim>\<open>i < j\<close> whose points are at distance at most \<^verbatim>\<open>r\<close>, with
  the first components in nondecreasing order. The order among pairs with the same first
  component is that of a Python set and is not determined; the list here has them by
  increasing second component. The loop that consumes the list stores, for each
  \<^verbatim>\<open>v\<close>, the \<^verbatim>\<open>k\<close> of the first pair \<^verbatim>\<open>(k, v)\<close>, and two pairs with the same
  \<^verbatim>\<open>k\<close> have different \<^verbatim>\<open>v\<close>, so the mapping it builds does not depend on that
  choice.
\<close>

definition query_pairs :: "point list \<Rightarrow> real \<Rightarrow> (nat \<times> nat) list" where
  "query_pairs pts r =
     concat (map (\<lambda>i. map (\<lambda>j. (i, j))
                (filter (\<lambda>j. dist_point (pts ! i) (pts ! j) \<le> r) [Suc i..<length pts]))
       [0..<length pts])"

text \<open>
  \<^verbatim>\<open>for k, v in _dup: if not v in dup: dup[v] = k\<close>. The dictionary is an association
  list in insertion order, keys \<^verbatim>\<open>v\<close> first.
\<close>

definition build_dup :: "(nat \<times> nat) list \<Rightarrow> (nat \<times> nat) list" where
  "build_dup pairs =
     fold (\<lambda>(k, v) dup. if map_of dup v = None then dup @ [(v, k)] else dup) pairs []"

text \<open>
  Python dictionaries with integer keys are partial maps. A dictionary comprehension
  stores its items one after the other (a later item with the same key wins);
  \<^verbatim>\<open>d.update(e)\<close> is \<open>d ++ e\<close>; a subscript \<^verbatim>\<open>d[k]\<close> with a missing key raises
  \<^verbatim>\<open>KeyError\<close>.
\<close>

definition dict_of :: "('k \<times> 'v) list \<Rightarrow> ('k \<rightharpoonup> 'v)" where
  "dict_of items = fold (\<lambda>(k, v) d. d(k \<mapsto> v)) items Map.empty"

definition getitem :: "('k \<rightharpoonup> 'v) \<Rightarrow> 'k \<Rightarrow> error + 'v" where
  "getitem d k = (case d k of None \<Rightarrow> Inl KeyError | Some v \<Rightarrow> Inr v)"

text \<open>
  Sequencing of two steps of which the first can raise: the exception of the first step
  is the result, and the second step does not run.
\<close>

definition and_then :: "error + 'a \<Rightarrow> ('a \<Rightarrow> error + 'b) \<Rightarrow> error + 'b" where
  "and_then r f = (case r of Inl e \<Rightarrow> Inl e | Inr x \<Rightarrow> f x)"

text \<open>A comprehension whose element expression can raise stops at the first exception.\<close>

primrec traverse :: "('a \<Rightarrow> error + 'b) \<Rightarrow> 'a list \<Rightarrow> error + 'b list" where
  "traverse f [] = Inr []"
| "traverse f (x # xs) =
     and_then (f x) (\<lambda>y. and_then (traverse f xs) (\<lambda>ys. Inr (y # ys)))"

text \<open>
  \<^verbatim>\<open>np.array([f(v) for v in tris.flatten()]).reshape(tris.shape)\<close>: the rows are
  visited in order and each row from left to right.
\<close>

definition traverse_tri :: "(int \<Rightarrow> error + int) \<Rightarrow> tri \<Rightarrow> error + tri" where
  "traverse_tri f t =
     (case t of (a, b, c) \<Rightarrow>
        and_then (f a) (\<lambda>a'. and_then (f b) (\<lambda>b'. and_then (f c) (\<lambda>c'. Inr (a', b', c')))))"

definition traverse_tris :: "(int \<Rightarrow> error + int) \<Rightarrow> tri list \<Rightarrow> error + tri list" where
  "traverse_tris f ts = traverse (traverse_tri f) ts"

text \<open>
  \<^verbatim>\<open>build_point_list\<close>. \<^verbatim>\<open>TOL\<close> is a constant of the package that the module
  imports; it is a parameter here. The function returns the global point array; the
  sphere pieces and the boundaries, whose triangle arrays it rewrites in place, are
  returned with it.
\<close>

definition build_point_list ::
  "real \<Rightarrow> Domain \<Rightarrow> SpherePiece list \<Rightarrow> 'a PLC_scheme list \<Rightarrow>
     error + (point list \<times> SpherePiece list \<times> 'a PLC_scheme list)" where
  "build_point_list TOL domain sphere_pieces boundaries =
     (let sphere_pieces' = offset_tris 0 sphere_pieces;
          piece_points = concat (map points sphere_pieces);
          bpp_idx = filter (\<lambda>i. on_boundary domain (piece_points ! i)) [0..<length piece_points];
          remap = dict_of (zip (map int [0..<length bpp_idx]) (map int bpp_idx));
          boundaries' = offset_tris (int (length bpp_idx)) boundaries;
          boundary_points = map (\<lambda>i. piece_points ! i) bpp_idx @ concat (map points boundaries);
          mask = replicate (length boundary_points) True;
          dup = build_dup (query_pairs boundary_points TOL);
          mask = fold (\<lambda>v m. m[v := False]) (map fst dup) mask;
          kept = filter (\<lambda>i. mask ! i) [0..<length boundary_points];
          boundary_points' = map (\<lambda>i. boundary_points ! i) kept;
          vcount_bpp = length bpp_idx;
          vcount_piece = length piece_points;
          remap = remap ++ dict_of (map (\<lambda>v. (int v + int vcount_bpp, int v + int vcount_piece))
                    [0..<length boundary_points' - length bpp_idx]);
          reindex = dict_of (zip (map int kept) (map int [0..<length kept]))
      in and_then
           (traverse (\<lambda>(k, v). and_then (getitem reindex (int v)) (\<lambda>r. Inr (int k, r))) dup)
           (\<lambda>items.
              let reindex = reindex ++ dict_of items
              in and_then
                   (traverse
                      (\<lambda>b. and_then
                              (traverse_tris
                                 (\<lambda>v. and_then (getitem reindex v) (getitem remap)) (tris b))
                              (\<lambda>ts. Inr (b\<lparr>tris := ts\<rparr>)))
                      boundaries')
                   (\<lambda>boundaries''.
                      Inr (piece_points @ drop vcount_bpp boundary_points', sphere_pieces',
                           boundaries''))))"

text \<open>
  The block of \<^verbatim>\<open>build_tetmesh\<close> under the comment \<^verbatim>\<open>Fix boundary points to exactly
  zero\<close>: \<^verbatim>\<open>for i in range(3): points[(np.isclose(points[:,i], 0.), i)] = 0.\<close>
\<close>

definition snap :: "real \<Rightarrow> real" where
  "snap c = (if isclose c 0 then 0 else c)"

definition fix_boundary_points :: "point list \<Rightarrow> point list" where
  "fix_boundary_points pts = map (\<lambda>(x, y, z). (snap x, snap y, snap z)) pts"

section \<open>Mesh build orchestration\<close>

text \<open>
  \<^verbatim>\<open>'%d' % n\<close> and \<^verbatim>\<open>'{}'.format(n)\<close> for an integer: its decimal digits, with a
  minus sign when it is negative.
\<close>

definition digit_char :: "nat \<Rightarrow> char" where
  "digit_char n = ''0123456789'' ! n"

fun show_nat :: "nat \<Rightarrow> string" where
  "show_nat n = (if n < 10 then [digit_char n] else show_nat (n div 10) @ [digit_char (n mod 10)])"

declare show_nat.simps [simp del]

definition show_int :: "int \<Rightarrow> string" where
  "show_int i = (if i < 0 then CHR ''-'' # show_nat (nat (- i)) else show_nat (nat i))"

text \<open>
  The captured log is the byte string that the engine wrote to the redirected standard
  output. \<^verbatim>\<open>f.readline()\<close> returns the bytes up to and including the next newline, or
  what is left of the file; at the end of the file it returns the empty byte string and
  the position does not move. The model returns the line and the unread rest.
\<close>

fun readline :: "string \<Rightarrow> string \<times> string" where
  "readline [] = ([], [])"
| "readline (c # cs) =
     (if c = CHR 0x0A then ([c], cs) else (c # fst (readline cs), snd (readline cs)))"

text \<open>\<^verbatim>\<open>l.decode('ascii')\<close> raises \<^verbatim>\<open>UnicodeDecodeError\<close> on a byte above 127.\<close>

definition decode_ascii :: "string \<Rightarrow> error + string" where
  "decode_ascii l =
     (if list_all (\<lambda>c. (of_char c :: nat) < 128) l then Inr l else Inl UnicodeDecodeError)"

text \<open>\<^verbatim>\<open>needle in s\<close> for strings.\<close>

fun contains :: "string \<Rightarrow> string \<Rightarrow> bool" where
  "contains needle [] = (needle = [])"
| "contains needle (c # cs) =
     (take (length needle) (c # cs) = needle \<or> contains needle cs)"

text \<open>
  \<^verbatim>\<open>s.split()\<close>: the maximal runs of characters that are not white space. For ASCII
  text Python's white space is the characters 9 to 13, 28 to 31 and 32.
\<close>

definition is_space :: "char \<Rightarrow> bool" where
  "is_space c = (let n = (of_char c :: nat) in (9 \<le> n \<and> n \<le> 13) \<or> (28 \<le> n \<and> n \<le> 32))"

fun split_acc :: "string \<Rightarrow> string \<Rightarrow> string list" where
  "split_acc tok [] = (if tok = [] then [] else [tok])"
| "split_acc tok (c # cs) =
     (if is_space c then (if tok = [] then split_acc [] cs else tok # split_acc [] cs)
      else split_acc (tok @ [c]) cs)"

definition py_split :: "string \<Rightarrow> string list" where
  "py_split s = split_acc [] s"

text \<open>
  \<^verbatim>\<open>int(s)\<close> for a string without white space: an optional sign, then decimal digits,
  where single underscores may stand between digits. Anything else raises
  \<^verbatim>\<open>ValueError\<close>.
\<close>

definition is_digit :: "char \<Rightarrow> bool" where
  "is_digit c = (let n = (of_char c :: nat) in 48 \<le> n \<and> n \<le> 57)"

fun digits_value :: "bool \<Rightarrow> nat \<Rightarrow> string \<Rightarrow> nat option" where
  "digits_value prev acc [] = (if prev then Some acc else None)"
| "digits_value prev acc (c # cs) =
     (if is_digit c then digits_value True (10 * acc + (of_char c - 48)) cs
      else if c = CHR ''_'' \<and> prev then digits_value False acc cs
      else None)"

definition py_int :: "string \<Rightarrow> error + int" where
  "py_int s =
     (case s of
        [] \<Rightarrow> Inl ValueError
      | c # cs \<Rightarrow>
          if c = CHR ''-'' then
            (case digits_value False 0 cs of None \<Rightarrow> Inl ValueError | Some n \<Rightarrow> Inr (- int n))
          else if c = CHR ''+'' then
            (case digits_value False 0 cs of None \<Rightarrow> Inl ValueError | Some n \<Rightarrow> Inr (int n))
          else
            (case digits_value False 0 s of None \<Rightarrow> Inl ValueError | Some n \<Rightarrow> Inr (int n)))"

text \<open>
  \<^verbatim>\<open>int(sl.split()[-1])\<close>: \<^verbatim>\<open>IndexError\<close> when the line has no token.
\<close>

definition last_token_int :: "string \<Rightarrow> error + int" where
  "last_token_int sl =
     (case py_split sl of [] \<Rightarrow> Inl IndexError | t # ts \<Rightarrow> py_int (last (t # ts)))"

text \<open>\<^verbatim>\<open>[f.readline() ... for i in range(n)]\<close>: the next \<open>n\<close> lines.\<close>

fun readlines :: "nat \<Rightarrow> string \<Rightarrow> string list" where
  "readlines 0 f = []"
| "readlines (Suc n) f = fst (readline f) # readlines n (snd (readline f))"

text \<open>
  The body of the \<^verbatim>\<open>if\<close> in \<^verbatim>\<open>extract_stats\<close>, run on the rest of the file after the
  line that holds \<^verbatim>\<open>Statistics:\<close>: eleven lines are read and decoded, the last token
  of each of the lines 7 to 10 is converted, and the summary is formatted.
\<close>

definition stats_summary :: "string \<Rightarrow> error + string" where
  "stats_summary f =
     and_then (traverse decode_ascii (readlines 11 f))
       (\<lambda>stats. and_then (traverse last_token_int (drop 7 stats))
          (\<lambda>ns. case ns of
                  [npoints, ntets, nfaces, nedges] \<Rightarrow>
                    Inr (''Built mesh with '' @ show_int npoints @ '' points, '' @
                         show_int ntets @ '' tetrahedra, '' @ show_int nfaces @
                         '' faces, and '' @ show_int nedges @ '' edges'')
                | _ \<Rightarrow> Inl ValueError))"

text \<open>
  \<^verbatim>\<open>extract_stats\<close>: the \<^verbatim>\<open>while True\<close> loop has no exit but the \<^verbatim>\<open>return\<close>
  under the \<^verbatim>\<open>if\<close>. The function is partial: \<open>None\<close> is a run that never returns,
  \<open>Some (Inl e)\<close> one that raises \<open>e\<close>, and \<open>Some (Inr s)\<close> one that returns \<open>s\<close>.
\<close>

partial_function (option) extract_stats :: "string \<Rightarrow> (error + string) option" where
  "extract_stats f =
     (case decode_ascii (fst (readline f)) of
        Inl e \<Rightarrow> Some (Inl e)
      | Inr s \<Rightarrow>
          if contains ''Statistics:'' s then Some (stats_summary (snd (readline f)))
          else extract_stats (snd (readline f)))"

text \<open>
  \<^verbatim>\<open>redirect_tetgen_output\<close>, as a function of what its \<^verbatim>\<open>with\<close> body did. When the
  body raises, the exception passes through the \<^verbatim>\<open>try ... finally\<close>. When the body
  returns a mesh, having written \<open>tet_log\<close> to the redirected output, the code after
  \<^verbatim>\<open>yield\<close> rewinds the log file and passes \<^verbatim>\<open>extract_stats(tfile)\<close> to the logger.
  There is no \<^verbatim>\<open>except\<close> clause: the \<^verbatim>\<open>finally\<close> block closes the handles and an
  exception of \<^verbatim>\<open>extract_stats\<close> leaves the context manager. The result holds the value
  of the body and the line given to \<^verbatim>\<open>logger.info\<close>.
\<close>

definition redirect_tetgen_output :: "error + ('m \<times> string) \<Rightarrow> (error + ('m \<times> string)) option" where
  "redirect_tetgen_output body =
     (case body of
        Inl e \<Rightarrow> Some (Inl e)
      | Inr (mesh, tet_log) \<Rightarrow>
          (case extract_stats tet_log of
             None \<Rightarrow> None
           | Some (Inl e) \<Rightarrow> Some (Inl e)
           | Some (Inr s) \<Rightarrow> Some (Inr (mesh, s))))"

text \<open>The three quality parameters that \<^verbatim>\<open>build_tetmesh\<close> reads from its configuration.\<close>

record Config =
  tetgen_rad_edge_ratio :: real
  tetgen_min_angle :: real
  tetgen_max_volume :: real

text \<open>
  \<^verbatim>\<open>build_tetmesh\<close>. The engine (\<^verbatim>\<open>tet.build\<close> of MeshPy on a \<^verbatim>\<open>MeshInfo\<close> that
  holds the points, the facets with their markers and the holes) is not part of the
  module: it is the parameter \<open>tet_build\<close>, which either raises or returns a mesh
  together with the text it printed.
\<close>

definition build_tetmesh ::
  "(point list \<Rightarrow> tri list \<Rightarrow> int list \<Rightarrow> point list \<Rightarrow> Config \<Rightarrow> error + ('m \<times> string)) \<Rightarrow>
   real \<Rightarrow> Domain \<Rightarrow> SpherePiece list \<Rightarrow> 'a PLC_scheme list \<Rightarrow> Config \<Rightarrow>
   (error + ('m \<times> string)) option" where
  "build_tetmesh tet_build TOL domain sphere_pieces boundaries config =
     (let boundaries = duplicate_lower_boundaries domain boundaries
      in case build_point_list TOL domain sphere_pieces boundaries of
           Inl e \<Rightarrow> Some (Inl e)
         | Inr (pts, sphere_pieces, boundaries) \<Rightarrow>
             (let pts = fix_boundary_points pts
              in case build_facet_list sphere_pieces boundaries of
                   Inl e \<Rightarrow> Some (Inl e)
                 | Inr (facets, markers) \<Rightarrow>
                     (let holes = build_hole_list sphere_pieces
                      in redirect_tetgen_output
                           (tet_build pts facets markers holes config))))"

section \<open>Format serializers\<close>

text \<open>
  The arrays of a \<^verbatim>\<open>MeshInfo\<close> that the writers read. The engine stores indices and
  markers as C \<^verbatim>\<open>int\<close>, so a value is a 32-bit word, read as a signed number.
\<close>

type_synonym int32 = "32 word"

record MeshInfo =
  mesh_points :: "point list"
  mesh_elements :: "(int32 \<times> int32 \<times> int32 \<times> int32) list"
  mesh_faces :: "(int32 \<times> int32 \<times> int32) list"
  mesh_face_markers :: "int32 list"
  mesh_adjacent_elements :: "(int32 \<times> int32) list"

text \<open>
  The conversion \<^verbatim>\<open>%+1.15e\<close> of a float: the sign, the decimal digits of the value
  rounded to one digit before and fifteen digits after the decimal point, the letter
  \<^verbatim>\<open>e\<close>, the sign of the decimal exponent and at least two digits of it. The
  conversion is correctly rounded, a tie going to the even digit. The float is a real
  number here; \<^verbatim>\<open>nan\<close>, \<^verbatim>\<open>inf\<close> and the negative zero have no counterpart.

  \<open>sci_normalise a e\<close> moves the decimal point of a positive number until one non-zero
  digit stands before it, and counts the moves in the exponent.
\<close>

function sci_normalise :: "real \<Rightarrow> int \<Rightarrow> real \<times> int" where
  "sci_normalise a e =
     (if 10 \<le> a then sci_normalise (a / 10) (e + 1)
      else if 0 < a \<and> a < 1 then sci_normalise (a * 10) (e - 1)
      else (a, e))"
  by pat_completeness auto

termination
proof (relation "measure (\<lambda>(a, e). if 10 \<le> a then nat \<lceil>a\<rceil> else if 0 < a \<and> a < 1 then nat \<lceil>1 / a\<rceil> else 0)")
  show "wf (measure (\<lambda>(a, e). if 10 \<le> a then nat \<lceil>a\<rceil> else if 0 < a \<and> a < 1 then nat \<lceil>1 / a\<rceil> else 0))"
    by simp
next
  fix a :: real and e :: int
  assume a: "10 \<le> a"
  have "\<lceil>a / 10\<rceil> \<le> \<lceil>a - 9\<rceil>" using a by (intro ceiling_mono) simp
  also have "\<dots> = \<lceil>a\<rceil> - 9" by simp
  finally have 1: "\<lceil>a / 10\<rceil> < \<lceil>a\<rceil>" by simp
  have 2: "0 < \<lceil>a\<rceil>" using a by simp
  show "((a / 10, e + 1), a, e) \<in> measure (\<lambda>(a, e). if 10 \<le> a then nat \<lceil>a\<rceil> else if 0 < a \<and> a < 1 then nat \<lceil>1 / a\<rceil> else 0)"
    using a 1 2 by (auto simp: not_le)
next
  fix a :: real and e :: int
  assume n: "\<not> 10 \<le> a" and b: "0 < a \<and> a < 1"
  then have y: "1 < 1 / a" by simp
  then have c2: "2 \<le> \<lceil>1 / a\<rceil>" by linarith
  have "\<lceil>1 / (a * 10)\<rceil> < \<lceil>1 / a\<rceil>" if "a * 10 < 1"
  proof -
    from that b have "10 < 1 / a" by (simp add: field_simps)
    then have "1 / a / 10 \<le> 1 / a - 9" by simp
    then have "\<lceil>1 / a / 10\<rceil> \<le> \<lceil>1 / a - 9\<rceil>" by (rule ceiling_mono)
    also have "\<dots> = \<lceil>1 / a\<rceil> - 9" by simp
    finally show ?thesis by (simp add: field_simps)
  qed
  then show "((a * 10, e - 1), a, e) \<in> measure (\<lambda>(a, e). if 10 \<le> a then nat \<lceil>a\<rceil> else if 0 < a \<and> a < 1 then nat \<lceil>1 / a\<rceil> else 0)"
    using b c2 by (auto simp: not_le)
qed

declare sci_normalise.simps [simp del]

text \<open>The nearest integer, a tie going to the even one.\<close>

definition rint :: "real \<Rightarrow> int" where
  "rint x =
     (let f = \<lfloor>x\<rfloor>
      in if x - of_int f < 1 / 2 then f
         else if 1 / 2 < x - of_int f then f + 1
         else if even f then f else f + 1)"

text \<open>
  The sixteen digits, as a number, and the decimal exponent of a positive number. When
  the rounding carries into a seventeenth digit, the digits are \<open>1000000000000000\<close> and
  the exponent is one more.
\<close>

definition sci_digits :: "real \<Rightarrow> nat \<times> int" where
  "sci_digits a =
     (case sci_normalise a 0 of (m, e) \<Rightarrow>
        let n = nat (rint (m * 10 ^ 15))
        in if n = 10 ^ 16 then (10 ^ 15, e + 1) else (n, e))"

definition fmt_e :: "real \<Rightarrow> string" where
  "fmt_e x =
     (if x = 0 then ''+0.000000000000000e+00''
      else (case sci_digits \<bar>x\<bar> of (n, e) \<Rightarrow>
        (if x < 0 then ''-'' else ''+'') @
        (case show_nat n of d # ds \<Rightarrow> d # CHR ''.'' # ds | [] \<Rightarrow> []) @ ''e'' @
        (if e < 0 then ''-'' else ''+'') @ (if \<bar>e\<bar> < 10 then ''0'' else []) @
        show_nat (nat \<bar>e\<bar>)))"

text \<open>
  One node line of \<^verbatim>\<open>write_msh\<close>: \<^verbatim>\<open>'%d %+1.15e %+1.15e %+1.15e\n' % (i+1, *p,)\<close>.
\<close>

definition node_line :: "nat \<Rightarrow> point \<Rightarrow> string" where
  "node_line i p =
     (case p of (x, y, z) \<Rightarrow>
        show_int (int i + 1) @ '' '' @ fmt_e x @ '' '' @ fmt_e y @ '' '' @ fmt_e z @ ''\<newline>'')"

text \<open>
  One element line: \<^verbatim>\<open>'%d 2 2 %d 0 %d %d %d\n' % (i+1, m if m > 0 else -1, *fac,)\<close>,
  where \<open>fac\<close> is a row of the \<^verbatim>\<open>int32\<close> array \<^verbatim>\<open>faces\<close> and \<open>m\<close> an entry of the
  \<^verbatim>\<open>int32\<close> array \<^verbatim>\<open>markers\<close>.
\<close>

definition element_line :: "nat \<Rightarrow> int32 \<times> int32 \<times> int32 \<Rightarrow> int32 \<Rightarrow> string" where
  "element_line i fac m =
     (case fac of (a, b, c) \<Rightarrow>
        show_int (int i + 1) @ '' 2 2 '' @ show_int (if 0 < sint m then sint m else - 1) @
        '' 0 '' @ show_int (sint a) @ '' '' @ show_int (sint b) @ '' '' @ show_int (sint c) @
        ''\<newline>'')"

text \<open>
  \<^verbatim>\<open>write_msh\<close>: the text written to the file. \<^verbatim>\<open>faces += 1\<close> is an addition of
  \<^verbatim>\<open>int32\<close> values, which wraps around. The second loop runs over
  \<^verbatim>\<open>zip(faces, markers)\<close>, which stops at the end of the shorter array.
\<close>

definition write_msh :: "MeshInfo \<Rightarrow> string" where
  "write_msh mesh =
     (let pts = mesh_points mesh;
          faces = map (\<lambda>(a, b, c). (a + 1, b + 1, c + 1)) (mesh_faces mesh);
          markers = mesh_face_markers mesh
      in ''$MeshFormat\<newline>2.2 0 8\<newline>$EndMeshFormat\<newline>'' @
         ''$Nodes\<newline>'' @ show_int (int (length pts)) @ ''\<newline>'' @
         concat (map (\<lambda>(i, p). node_line i p) (enumerate 0 pts)) @
         ''$EndNodes\<newline>'' @
         ''$Elements\<newline>'' @ show_int (int (length faces)) @ ''\<newline>'' @
         concat (map (\<lambda>(i, (fac, m)). element_line i fac m) (enumerate 0 (zip faces markers))) @
         ''$EndElements\<newline>'')"

text \<open>
  The block of \<^verbatim>\<open>write_multiflow\<close> that writes the data set \<^verbatim>\<open>cellFaces\<close>. The loop
  fills a \<^verbatim>\<open>defaultdict(list)\<close>: each face index is appended to the lists of its two
  adjacent elements.
\<close>

definition append_item :: "(int \<rightharpoonup> nat list) \<Rightarrow> int \<Rightarrow> nat \<Rightarrow> (int \<rightharpoonup> nat list)" where
  "append_item d k idx = d(k \<mapsto> (case d k of None \<Rightarrow> [] | Some xs \<Rightarrow> xs) @ [idx])"

definition cell_faces_of :: "(int \<times> int) list \<Rightarrow> (int \<rightharpoonup> nat list)" where
  "cell_faces_of adjacent_elements =
     fold (\<lambda>(idx, adj). \<lambda>d. append_item (append_item d (fst adj) idx) (snd adj) idx)
       (enumerate 0 adjacent_elements) Map.empty"

text \<open>
  \<^verbatim>\<open>d.pop(k)\<close> without a default value: \<^verbatim>\<open>KeyError\<close> when the key is missing (the
  default factory of a \<^verbatim>\<open>defaultdict\<close> serves subscripts only).
\<close>

definition pop :: "('k \<rightharpoonup> 'v) \<Rightarrow> 'k \<Rightarrow> error + ('k \<rightharpoonup> 'v)" where
  "pop d k = (case d k of None \<Rightarrow> Inl KeyError | Some v \<Rightarrow> Inr (d(k := None)))"

text \<open>
  \<^verbatim>\<open>np.array(rows).flatten()\<close> for a list of lists of integers. Rows of one length give
  a two-dimensional array, whose flattening is their concatenation. Rows of different
  lengths give no integer array: NumPy raises (from version 1.24 on) or builds an array
  of objects that an HDF5 data set cannot store, so the assignment raises.
\<close>

definition flatten_rows :: "nat list list \<Rightarrow> error + nat list" where
  "flatten_rows rows =
     (if list_all (\<lambda>r. length r = length (hd rows)) rows then Inr (concat rows)
      else Inl ArrayError)"

text \<open>
  The block itself: the fill loop, \<^verbatim>\<open>cell_faces.pop(-1)\<close>, then the lists in the order
  of their keys. The keys that can occur are the entries of \<^verbatim>\<open>adjacent_elements\<close>. The
  data sets that \<^verbatim>\<open>write_multiflow\<close> stores before this block do not depend on it, and
  the statements after it run only if it does not raise.
\<close>

definition write_multiflow_cell_faces :: "MeshInfo \<Rightarrow> error + nat list" where
  "write_multiflow_cell_faces mesh =
     (let adjacent_elements = map (\<lambda>(a, b). (sint a, sint b)) (mesh_adjacent_elements mesh);
          cell_faces = cell_faces_of adjacent_elements
      in and_then (pop cell_faces (- 1))
           (\<lambda>cell_faces.
              flatten_rows
                (map (\<lambda>k. the (cell_faces k))
                   (filter (\<lambda>k. cell_faces k \<noteq> None)
                      (sort (remdups (concat (map (\<lambda>(a, b). [a, b]) adjacent_elements))))))))"

section \<open>Predicates of the properties\<close>

text \<open>A triangle whose three indices lie in \<open>[0, n)\<close>.\<close>

definition tri_valid :: "nat \<Rightarrow> tri \<Rightarrow> bool" where
  "tri_valid n t =
     (case t of (a, b, c) \<Rightarrow> 0 \<le> a \<and> a < int n \<and> 0 \<le> b \<and> b < int n \<and> 0 \<le> c \<and> c < int n)"

text \<open>
  A point array without near-duplicates: any two of its entries are at a distance above
  \<open>TOL\<close> (they are not reported by a proximity query of radius \<open>TOL\<close>).
\<close>

fun no_near_duplicates :: "real \<Rightarrow> point list \<Rightarrow> bool" where
  "no_near_duplicates TOL [] = True"
| "no_near_duplicates TOL (p # ps) =
     ((\<forall>q \<in> set ps. TOL < dist_point p q) \<and> no_near_duplicates TOL ps)"

text \<open>The fields of a line: the pieces between occurrences of a separator.\<close>

fun split_on :: "char \<Rightarrow> string \<Rightarrow> string list" where
  "split_on sep [] = [[]]"
| "split_on sep (c # cs) =
     (if c = sep then [] # split_on sep cs
      else (case split_on sep cs of w # ws \<Rightarrow> (c # w) # ws | [] \<Rightarrow> [[c]]))"

text \<open>The number that a string of decimal digits denotes.\<close>

definition digits_nat :: "string \<Rightarrow> nat" where
  "digits_nat s = foldl (\<lambda>acc c. 10 * acc + (of_char c - 48)) 0 s"

section \<open>Boundary replication: periodic congruence\<close>

lemma enumerate3: "enumerate 0 [a, b, c] = [(0, a), (1, b), (2, c)]"
  by (simp add: enumerate_eq_zip upt_rec)

text \<open>
  Claim C2. For a domain with edge lengths \<open>(Lx, Ly, Lz)\<close> and three lower patches in the
  axis order x, y, z, \<^verbatim>\<open>duplicate_lower_boundaries\<close> returns six patches: the three
  lower patches unchanged, then one copy of each in the same order. The copy of the patch
  of axis \<open>i\<close> has every point moved by \<open>L[i]\<close> on coordinate \<open>i\<close> and by zero on
  the two other coordinates; its triangles and all its other attributes are those of the
  lower patch.
\<close>

theorem duplicate_lower_boundaries_congruent:
  fixes bx by' bz :: "'a PLC_scheme"
  assumes "L domain = (Lx, Ly, Lz)"
  shows "duplicate_lower_boundaries domain [bx, by', bz] =
     [bx, by', bz,
      bx\<lparr>points := map (\<lambda>(x, y, z). (x + Lx, y + 0, z + 0)) (points bx)\<rparr>,
      by'\<lparr>points := map (\<lambda>(x, y, z). (x + 0, y + Ly, z + 0)) (points by')\<rparr>,
      bz\<lparr>points := map (\<lambda>(x, y, z). (x + 0, y + 0, z + Lz)) (points bz)\<rparr>]"
  using assms
  by (simp add: duplicate_lower_boundaries_def enumerate3 translate_def add_point_def split_def)

theorem duplicate_lower_boundaries_congruent_witness:
  "L \<lparr>L = (1, 2, 3)\<rparr> = (1, 2, 3) \<and>
   duplicate_lower_boundaries \<lparr>L = (1, 2, 3)\<rparr>
     [\<lparr>points = [(0, 0, 0), (0, 2, 3)], tris = [(0, 1, 1)]\<rparr>,
      \<lparr>points = [(0, 0, 0), (1, 0, 3)], tris = []\<rparr>,
      \<lparr>points = [(1, 2, 0)], tris = [(0, 0, 0)]\<rparr>] =
     [\<lparr>points = [(0, 0, 0), (0, 2, 3)], tris = [(0, 1, 1)]\<rparr>,
      \<lparr>points = [(0, 0, 0), (1, 0, 3)], tris = []\<rparr>,
      \<lparr>points = [(1, 2, 0)], tris = [(0, 0, 0)]\<rparr>,
      \<lparr>points = [(1, 0, 0), (1, 2, 3)], tris = [(0, 1, 1)]\<rparr>,
      \<lparr>points = [(0, 2, 0), (1, 2, 3)], tris = []\<rparr>,
      \<lparr>points = [(1, 2, 3)], tris = [(0, 0, 0)]\<rparr>]"
  using duplicate_lower_boundaries_congruent
    [of "\<lparr>L = (1, 2, 3)\<rparr>" 1 2 3
        "\<lparr>points = [(0, 0, 0), (0, 2, 3)], tris = [(0, 1, 1)]\<rparr>"
        "\<lparr>points = [(0, 0, 0), (1, 0, 3)], tris = []\<rparr>"
        "\<lparr>points = [(1, 2, 0)], tris = [(0, 0, 0)]\<rparr>"]
  by simp

section \<open>Facet markers\<close>

lemma zip_replicate_const:
  "zip xs (replicate (length xs) m) = map (\<lambda>t. (t, m)) xs"
  by (induction xs) auto

lemma zip_concat_replicate:
  "zip (concat (map tris ps)) (concat (map (\<lambda>p. replicate (length (tris p)) (f p)) ps)) =
   concat (map (\<lambda>p. map (\<lambda>t. (t, f p)) (tris p)) ps)"
  by (induction ps) (auto simp: zip_replicate_const)

lemma length_concat_replicate:
  "length (concat (map (\<lambda>p. replicate (length (tris p)) (f p)) ps)) =
   length (concat (map tris ps))"
  by (induction ps) auto

lemma set_concat_replicate:
  "set (concat (map (\<lambda>p. replicate (length (tris p)) (f p)) ps)) \<subseteq> f ` set ps"
  by (induction ps) auto

text \<open>
  Claim C5. For six boundary patches and sphere pieces whose sphere ids are not negative,
  \<^verbatim>\<open>build_facet_list\<close> returns facets and markers of the same length in which every
  triangle of the six patches carries, in list order, the marker 1, 3, 5, 2, 4, 6, and
  every triangle of a sphere piece carries the id of its sphere plus 7. The markers of
  the boundary triangles lie in \<open>{1..6}\<close> and no marker of a sphere triangle does.
\<close>

theorem build_facet_list_markers:
  fixes b0 b1 b2 b3 b4 b5 :: "'a PLC_scheme"
  assumes ids: "\<forall>p \<in> set sphere_pieces. 0 \<le> sphere_id (sphere p)"
  shows "\<exists>facets markers.
     build_facet_list sphere_pieces [b0, b1, b2, b3, b4, b5] = Inr (facets, markers) \<and>
     length markers = length facets \<and>
     zip facets markers =
       map (\<lambda>t. (t, 1)) (tris b0) @ map (\<lambda>t. (t, 3)) (tris b1) @ map (\<lambda>t. (t, 5)) (tris b2) @
       map (\<lambda>t. (t, 2)) (tris b3) @ map (\<lambda>t. (t, 4)) (tris b4) @ map (\<lambda>t. (t, 6)) (tris b5) @
       concat (map (\<lambda>p. map (\<lambda>t. (t, sphere_id (sphere p) + 7)) (tris p)) sphere_pieces) \<and>
     set (take (length (concat (map tris [b0, b1, b2, b3, b4, b5]))) markers) \<subseteq> {1..6} \<and>
     set (drop (length (concat (map tris [b0, b1, b2, b3, b4, b5]))) markers) \<inter> {1..6} = {}"
proof -
  let ?f = "\<lambda>p. sphere_id (sphere p) + 7"
  let ?sm = "concat (map (\<lambda>p. replicate (length (tris p)) (?f p)) sphere_pieces)"
  let ?bm = "replicate (length (tris b0)) (1::int) @ replicate (length (tris b1)) 3 @
             replicate (length (tris b2)) 5 @ replicate (length (tris b3)) 2 @
             replicate (length (tris b4)) 4 @ replicate (length (tris b5)) 6"
  let ?bf = "tris b0 @ tris b1 @ tris b2 @ tris b3 @ tris b4 @ tris b5"
  let ?sf = "concat (map tris sphere_pieces)"
  have run: "build_facet_list sphere_pieces [b0, b1, b2, b3, b4, b5] = Inr (?bf @ ?sf, ?bm @ ?sm)"
    by (simp add: build_facet_list_def Let_def)
  have len_b: "length ?bm = length ?bf" by simp
  have len_s: "length ?sm = length ?sf" by (rule length_concat_replicate)
  have zip_b: "zip ?bf ?bm =
       map (\<lambda>t. (t, 1)) (tris b0) @ map (\<lambda>t. (t, 3)) (tris b1) @ map (\<lambda>t. (t, 5)) (tris b2) @
       map (\<lambda>t. (t, 2)) (tris b3) @ map (\<lambda>t. (t, 4)) (tris b4) @ map (\<lambda>t. (t, 6)) (tris b5)"
    by (simp add: zip_replicate_const del: replicate.simps)
  have zip_all: "zip (?bf @ ?sf) (?bm @ ?sm) = zip ?bf ?bm @ zip ?sf ?sm"
    using len_b by (simp only: zip_append)
  have bset: "set ?bm \<subseteq> {1..6}" by auto
  have "set ?sm \<subseteq> ?f ` set sphere_pieces" by (rule set_concat_replicate)
  with ids have sset: "set ?sm \<inter> {1..6} = {}" by fastforce
  have tk: "take (length ?bf) (?bm @ ?sm) = ?bm" using len_b by simp
  have dr: "drop (length ?bf) (?bm @ ?sm) = ?sm" using len_b by simp
  have lenc: "length (concat (map tris [b0, b1, b2, b3, b4, b5])) = length ?bf" by simp
  show ?thesis
    apply (rule exI[of _ "?bf @ ?sf"], rule exI[of _ "?bm @ ?sm"])
    apply (intro conjI)
        apply (rule run)
    using len_b len_s apply simp
    using zip_all zip_b zip_concat_replicate[of sphere_pieces ?f] apply simp
    using bset tk lenc apply simp
    using sset dr lenc apply simp
    done
qed

theorem build_facet_list_markers_witness:
  "(0::int) \<le> 0 \<and> (0::int) \<le> 4 \<and>
   (\<exists>facets markers.
      build_facet_list
        [\<lparr>points = [], tris = [(0, 1, 2)],
           sphere = \<lparr>sphere_id = 0, sphere_x = (0, 0, 0)\<rparr>, is_hole = False\<rparr>,
         \<lparr>points = [], tris = [(3, 4, 5), (3, 5, 6)],
           sphere = \<lparr>sphere_id = 4, sphere_x = (1, 1, 1)\<rparr>, is_hole = True\<rparr>]
        [\<lparr>points = [], tris = [(7, 8, 9)]\<rparr>, \<lparr>points = [], tris = [(10, 11, 12)]\<rparr>,
         \<lparr>points = [], tris = []\<rparr>, \<lparr>points = [], tris = [(13, 14, 15)]\<rparr>,
         \<lparr>points = [], tris = [(16, 17, 18)]\<rparr>, \<lparr>points = [], tris = [(19, 20, 21)]\<rparr>]
        = Inr (facets, markers) \<and>
      zip facets markers =
        [((7, 8, 9), 1), ((10, 11, 12), 3), ((13, 14, 15), 2), ((16, 17, 18), 4),
         ((19, 20, 21), 6), ((0, 1, 2), 7), ((3, 4, 5), 11), ((3, 5, 6), 11)])"
  using build_facet_list_markers
    [of "[\<lparr>points = [], tris = [(0, 1, 2)],
           sphere = \<lparr>sphere_id = 0, sphere_x = (0, 0, 0)\<rparr>, is_hole = False\<rparr>,
         \<lparr>points = [], tris = [(3, 4, 5), (3, 5, 6)],
           sphere = \<lparr>sphere_id = 4, sphere_x = (1, 1, 1)\<rparr>, is_hole = True\<rparr>]"
        "\<lparr>points = [], tris = [(7, 8, 9)]\<rparr>" "\<lparr>points = [], tris = [(10, 11, 12)]\<rparr>"
        "\<lparr>points = [], tris = []\<rparr>" "\<lparr>points = [], tris = [(13, 14, 15)]\<rparr>"
        "\<lparr>points = [], tris = [(16, 17, 18)]\<rparr>" "\<lparr>points = [], tris = [(19, 20, 21)]\<rparr>"]
  by auto

section \<open>Hole list\<close>

text \<open>
  Claim C6. \<^verbatim>\<open>build_hole_list\<close> returns the sphere centres of the pieces whose
  \<^verbatim>\<open>is_hole\<close> flag is set, one entry for each such piece and in the order of the input.
  When no piece is flagged the result is the empty array; the result is an array in every
  case (the function has no path that returns \<^verbatim>\<open>None\<close>).
\<close>

theorem build_hole_list_centres:
  "build_hole_list sphere_pieces = map (\<lambda>p. sphere_x (sphere p)) (filter is_hole sphere_pieces)
   \<and> length (build_hole_list sphere_pieces) = length (filter is_hole sphere_pieces)
   \<and> ((\<forall>p \<in> set sphere_pieces. \<not> is_hole p) \<longrightarrow> build_hole_list sphere_pieces = [])"
  by (auto simp: build_hole_list_def Let_def filter_empty_conv)

theorem build_hole_list_centres_witness:
  "build_hole_list
     [\<lparr>points = [], tris = [], sphere = \<lparr>sphere_id = 0, sphere_x = (1/2, 1/2, 1/2)\<rparr>,
        is_hole = True\<rparr>,
      \<lparr>points = [], tris = [], sphere = \<lparr>sphere_id = 1, sphere_x = (1/4, 1/4, 1/4)\<rparr>,
        is_hole = False\<rparr>]
     = [(1/2, 1/2, 1/2)]
   \<and> build_hole_list
     [\<lparr>points = [], tris = [], sphere = \<lparr>sphere_id = 1, sphere_x = (1/4, 1/4, 1/4)\<rparr>,
        is_hole = False\<rparr>]
     = []"
  using build_hole_list_centres
    [of "[\<lparr>points = [], tris = [], sphere = \<lparr>sphere_id = 0, sphere_x = (1/2, 1/2, 1/2)\<rparr>,
            is_hole = True\<rparr>,
          \<lparr>points = [], tris = [], sphere = \<lparr>sphere_id = 1, sphere_x = (1/4, 1/4, 1/4)\<rparr>,
            is_hole = False\<rparr>]"]
    build_hole_list_centres
    [of "[\<lparr>points = [], tris = [], sphere = \<lparr>sphere_id = 1, sphere_x = (1/4, 1/4, 1/4)\<rparr>,
            is_hole = False\<rparr>]"]
  by simp

section \<open>Vertex merge: auxiliary facts\<close>

lemma no_near_duplicates_iff:
  "no_near_duplicates TOL pts \<longleftrightarrow>
   (\<forall>i j. i < j \<and> j < length pts \<longrightarrow> TOL < dist_point (pts ! i) (pts ! j))"
proof (induction pts)
  case Nil
  then show ?case by simp
next
  case (Cons p ps)
  show ?case
  proof
    assume a: "no_near_duplicates TOL (p # ps)"
    show "\<forall>i j. i < j \<and> j < length (p # ps) \<longrightarrow> TOL < dist_point ((p # ps) ! i) ((p # ps) ! j)"
    proof (intro allI impI)
      fix i j assume ij: "i < j \<and> j < length (p # ps)"
      then obtain j' where j': "j = Suc j'" by (cases j) auto
      show "TOL < dist_point ((p # ps) ! i) ((p # ps) ! j)"
      proof (cases i)
        case 0
        then show ?thesis using a ij j' by auto
      next
        case (Suc i')
        then show ?thesis using a ij j' Cons.IH by auto
      qed
    qed
  next
    assume a: "\<forall>i j. i < j \<and> j < length (p # ps) \<longrightarrow> TOL < dist_point ((p # ps) ! i) ((p # ps) ! j)"
    have 1: "\<forall>q \<in> set ps. TOL < dist_point p q"
    proof
      fix q assume "q \<in> set ps"
      then obtain k where k: "k < length ps" "ps ! k = q" by (auto simp: in_set_conv_nth)
      from a[rule_format, of 0 "Suc k"] k show "TOL < dist_point p q" by simp
    qed
    have 2: "no_near_duplicates TOL ps"
      unfolding Cons.IH
    proof (intro allI impI)
      fix i j assume "i < j \<and> j < length ps"
      with a[rule_format, of "Suc i" "Suc j"] show "TOL < dist_point (ps ! i) (ps ! j)" by simp
    qed
    from 1 2 show "no_near_duplicates TOL (p # ps)" by simp
  qed
qed

lemma query_pairs_iff:
  "(i, j) \<in> set (query_pairs pts r) \<longleftrightarrow>
   i < j \<and> j < length pts \<and> dist_point (pts ! i) (pts ! j) \<le> r"
proof
  assume "(i, j) \<in> set (query_pairs pts r)"
  then show "i < j \<and> j < length pts \<and> dist_point (pts ! i) (pts ! j) \<le> r"
    unfolding query_pairs_def by auto
next
  assume a: "i < j \<and> j < length pts \<and> dist_point (pts ! i) (pts ! j) \<le> r"
  then have "i \<in> {0..<length pts}" by simp
  moreover from a have "(i, j) \<in> Pair i ` {xa. Suc i \<le> xa \<and> xa < length pts \<and>
      dist_point (pts ! i) (pts ! xa) \<le> r}" by simp
  ultimately have "\<exists>x\<in>{0..<length pts}. (i, j) \<in> Pair x ` {xa. Suc x \<le> xa \<and> xa < length pts \<and>
      dist_point (pts ! x) (pts ! xa) \<le> r}" by (rule bexI[rotated])
  then show "(i, j) \<in> set (query_pairs pts r)"
    unfolding query_pairs_def by simp
qed

lemma query_pairs_empty:
  assumes a: "no_near_duplicates TOL pts"
  shows "query_pairs pts TOL = []"
proof (cases "query_pairs pts TOL")
  case Nil
  then show ?thesis .
next
  case (Cons x xs)
  obtain i j where x: "x = (i, j)" by (cases x)
  have "(i, j) \<in> set (query_pairs pts TOL)" by (simp add: Cons x)
  then have 1: "i < j \<and> j < length pts \<and> dist_point (pts ! i) (pts ! j) \<le> TOL"
    by (simp only: query_pairs_iff)
  from a have "\<forall>i j. i < j \<and> j < length pts \<longrightarrow> TOL < dist_point (pts ! i) (pts ! j)"
    by (simp only: no_near_duplicates_iff)
  with 1 have "TOL < dist_point (pts ! i) (pts ! j)" by blast
  with 1 show ?thesis by simp
qed

lemma fold_dup_map_of:
  "map_of (fold (\<lambda>(k, v) dup. if map_of dup v = None then dup @ [(v, k)] else dup) ps d) x =
   (case map_of d x of Some k \<Rightarrow> Some k | None \<Rightarrow> map_of (map prod.swap ps) x)"
proof (induction ps arbitrary: d)
  case Nil
  then show ?case by (simp split: option.splits)
next
  case (Cons a ps)
  obtain k v where a: "a = (k, v)" by (cases a)
  show ?case
    by (simp add: a Cons.IH map_add_def split: option.splits)
qed

lemma build_dup_map_of: "map_of (build_dup ps) = map_of (map prod.swap ps)"
  by (rule ext) (simp add: build_dup_def fold_dup_map_of)

lemma fold_dup_distinct:
  "distinct (map fst d) \<Longrightarrow>
   distinct (map fst (fold (\<lambda>(k, v) dup. if map_of dup v = None then dup @ [(v, k)] else dup) ps d))"
proof (induction ps arbitrary: d)
  case Nil
  then show ?case by simp
next
  case (Cons a ps)
  obtain k v where a: "a = (k, v)" by (cases a)
  show ?case
  proof (cases "map_of d v = None")
    case True
    then have "v \<notin> fst ` set d" by (simp add: map_of_eq_None_iff)
    with Cons.prems have "distinct (map fst (d @ [(v, k)]))" by simp
    from Cons.IH[OF this] True show ?thesis by (simp add: a)
  next
    case False
    with Cons.IH[OF Cons.prems] show ?thesis by (auto simp: a)
  qed
qed

lemma build_dup_distinct: "distinct (map fst (build_dup ps))"
  by (simp add: build_dup_def fold_dup_distinct)

lemma build_dup_keys: "fst ` set (build_dup ps) = snd ` set ps"
proof -
  have "dom (map_of (build_dup ps)) = dom (map_of (map prod.swap ps))"
    by (simp add: build_dup_map_of)
  then show ?thesis by (simp add: dom_map_of_conv_image_fst image_image)
qed

lemma build_dup_mem:
  "(v, k) \<in> set (build_dup ps) \<Longrightarrow> (k, v) \<in> set ps"
proof -
  assume "(v, k) \<in> set (build_dup ps)"
  then have "map_of (build_dup ps) v = Some k"
    using build_dup_distinct by simp
  then have "map_of (map prod.swap ps) v = Some k" by (simp add: build_dup_map_of)
  then have "(v, k) \<in> set (map prod.swap ps)" by (rule map_of_SomeD)
  then show ?thesis by auto
qed


lemma fold_mask_length: "length (fold (\<lambda>v m. m[v := False]) vs m) = length m"
  by (induction vs arbitrary: m) auto

lemma fold_mask_nth:
  "i < length m \<Longrightarrow> fold (\<lambda>v m. m[v := False]) vs m ! i = (m ! i \<and> i \<notin> set vs)"
proof (induction vs arbitrary: m)
  case Nil
  then show ?case by simp
next
  case (Cons v vs)
  have "fold (\<lambda>v m. m[v := False]) (v # vs) m ! i =
        fold (\<lambda>v m. m[v := False]) vs (m[v := False]) ! i" by simp
  also have "\<dots> = (m[v := False] ! i \<and> i \<notin> set vs)"
    using Cons.prems by (intro Cons.IH) simp
  also have "\<dots> = (m ! i \<and> i \<notin> set (v # vs))"
    using Cons.prems by (cases "v = i") auto
  finally show ?case .
qed

lemma kept_filter:
  "filter (\<lambda>i. fold (\<lambda>v m. m[v := False]) vs (replicate n True) ! i) [0..<n] =
   filter (\<lambda>i. i \<notin> set vs) [0..<n]"
  by (rule filter_cong) (auto simp: fold_mask_nth)

lemma dict_of_rev: "dict_of items = map_of (rev items)"
proof -
  have "fold (\<lambda>(k, v) d. d(k \<mapsto> v)) items d = d ++ map_of (rev items)" for d :: "'a \<rightharpoonup> 'b"
  proof (induction items arbitrary: d)
    case Nil
    then show ?case by simp
  next
    case (Cons a items)
    obtain k v where a: "a = (k, v)" by (cases a)
    have "fold (\<lambda>(k, v) d. d(k \<mapsto> v)) (a # items) d =
          fold (\<lambda>(k, v) d. d(k \<mapsto> v)) items (d(k \<mapsto> v))"
      unfolding a by (simp only: fold_simps case_prod_conv)
    also have "\<dots> = d(k \<mapsto> v) ++ map_of (rev items)" by (rule Cons.IH)
    also have "d(k \<mapsto> v) = d ++ [k \<mapsto> v]" by simp
    also have "d ++ [k \<mapsto> v] ++ map_of (rev items) = d ++ map_of (rev (a # items))"
      unfolding a by (simp only: rev.simps map_of_append map_add_assoc map_of.simps fst_conv snd_conv)
    finally show ?case .
  qed
  then show ?thesis by (simp add: dict_of_def)
qed

lemma dict_of_distinct: "distinct (map fst items) \<Longrightarrow> dict_of items = map_of items"
  unfolding dict_of_rev by (simp add: map_of_inject_set rev_map[symmetric])

lemma traverse_Inr:
  "traverse f xs = Inr ys \<Longrightarrow> list_all2 (\<lambda>x y. f x = Inr y) xs ys"
proof (induction xs arbitrary: ys)
  case Nil
  then show ?case by simp
next
  case (Cons x xs)
  then show ?case by (auto simp: and_then_def split: sum.splits)
qed

lemma traverse_total:
  "(\<And>x. x \<in> set xs \<Longrightarrow> \<exists>y. f x = Inr y) \<Longrightarrow> \<exists>ys. traverse f xs = Inr ys"
proof (induction xs)
  case Nil
  then show ?case by simp
next
  case (Cons x xs)
  then obtain y where y: "f x = Inr y" by auto
  from Cons obtain ys where "traverse f xs = Inr ys" by auto
  with y show ?case by (simp add: and_then_def)
qed

lemma traverse_map: "(\<And>x. x \<in> set xs \<Longrightarrow> f x = Inr (g x)) \<Longrightarrow> traverse f xs = Inr (map g xs)"
  by (induction xs) (auto simp: and_then_def)


lemma reindex_lookup:
  assumes "distinct kept" and "c < length kept"
  shows "dict_of (zip (map int kept) (map int [0..<length kept])) (int (kept ! c)) = Some (int c)"
proof -
  let ?items = "zip (map int kept) (map int [0..<length kept])"
  have d: "distinct (map fst ?items)" using assms(1) by (simp add: distinct_map)
  have "(int (kept ! c), int c) \<in> set ?items"
    using assms(2) by (auto simp: set_zip intro!: exI[of _ c])
  then have "map_of ?items (int (kept ! c)) = Some (int c)"
    using d by (rule map_of_is_SomeI[rotated])
  then show ?thesis by (simp add: dict_of_distinct[OF d])
qed

lemma reindex_range:
  assumes "dict_of (zip (map int kept) (map int [0..<length kept])) x = Some r"
  shows "\<exists>c < length kept. r = int c \<and> x = int (kept ! c)"
proof -
  let ?items = "zip (map int kept) (map int [0..<length kept])"
  from assms have "map_of (rev ?items) x = Some r" by (simp add: dict_of_rev)
  then have "(x, r) \<in> set ?items" by (auto dest: map_of_SomeD)
  then show ?thesis by (auto simp: set_zip)
qed

lemma dict_of_ran:
  assumes "dict_of items x = Some r"
  shows "(x, r) \<in> set items"
proof -
  from assms have "map_of (rev items) x = Some r" by (simp add: dict_of_rev)
  then show ?thesis by (auto dest: map_of_SomeD)
qed

lemma getitem_Inr: "getitem d k = Inr v \<longleftrightarrow> d k = Some v"
  by (simp add: getitem_def split: option.splits)

lemma and_then_Inr: "and_then r f = Inr y \<longleftrightarrow> (\<exists>x. r = Inr x \<and> f x = Inr y)"
  by (cases r) (simp_all add: and_then_def)

lemma items_range:
  assumes "traverse (\<lambda>(k, v). and_then (getitem R0 (int v)) (\<lambda>r. Inr (int k, r))) dup = Inr items"
    and "(x, r) \<in> set items"
  shows "\<exists>v. R0 v = Some r"
proof -
  from traverse_Inr[OF assms(1)]
  have la: "list_all2 (\<lambda>kv y. (case kv of (k, v) \<Rightarrow>
      and_then (getitem R0 (int v)) (\<lambda>r. Inr (int k, r))) = Inr y) dup items" .
  from assms(2) obtain n where n: "n < length items" "items ! n = (x, r)"
    by (auto simp: in_set_conv_nth)
  from la n have "(case dup ! n of (k, v) \<Rightarrow>
      and_then (getitem R0 (int v)) (\<lambda>r. Inr (int k, r))) = Inr (x, r)"
    by (auto simp: list_all2_conv_all_nth)
  then show ?thesis
    by (cases "dup ! n") (auto simp: and_then_Inr getitem_Inr)
qed


lemma remap_range:
  assumes "(dict_of (zip (map int [0..<length bpp]) (map int bpp)) ++
            dict_of (map (\<lambda>v. (int v + int nb, int v + int np)) [0..<K - nb])) x = Some r"
    and "\<forall>i \<in> set bpp. i < np"
  shows "0 \<le> r \<and> r < int (np + (K - nb))"
proof -
  from assms(1) consider
      (new) "dict_of (map (\<lambda>v. (int v + int nb, int v + int np)) [0..<K - nb]) x = Some r"
    | (old) "dict_of (zip (map int [0..<length bpp]) (map int bpp)) x = Some r"
    by (auto simp: map_add_def split: option.splits)
  then show ?thesis
  proof cases
    case new
    from dict_of_ran[OF new] show ?thesis by auto
  next
    case old
    from dict_of_ran[OF old] have "r \<in> int ` set bpp" by (auto simp: set_zip)
    with assms(2) show ?thesis by auto
  qed
qed

lemma tri_valid_mono: "tri_valid n t \<Longrightarrow> n \<le> m \<Longrightarrow> tri_valid m t"
  by (auto simp: tri_valid_def split: prod.splits)

lemma offset_tris_valid:
  assumes "\<forall>p \<in> set ps. \<forall>t \<in> set (tris p). tri_valid (length (points p)) t"
  shows "\<forall>p \<in> set (offset_tris (int v) ps). \<forall>t \<in> set (tris p).
           tri_valid (v + length (concat (map points ps))) t"
  using assms
proof (induction ps arbitrary: v)
  case Nil
  then show ?case by simp
next
  case (Cons p ps)
  have 1: "\<forall>t \<in> set (map (\<lambda>t. add_tri t (int v)) (tris p)).
             tri_valid (v + length (concat (map points (p # ps)))) t"
    using Cons.prems by (fastforce simp: tri_valid_def add_tri_def split: prod.splits)
  have "\<forall>q \<in> set (offset_tris (int (v + length (points p))) ps). \<forall>t \<in> set (tris q).
           tri_valid (v + length (points p) + length (concat (map points ps))) t"
    using Cons.prems by (intro Cons.IH) simp
  then have 2: "\<forall>q \<in> set (offset_tris (int v + int (length (points p))) ps). \<forall>t \<in> set (tris q).
           tri_valid (v + length (concat (map points (p # ps)))) t"
    by (simp add: add.assoc)
  from 1 2 show ?case by simp
qed

lemma no_near_duplicates_append:
  "no_near_duplicates TOL (xs @ ys) \<longleftrightarrow>
   no_near_duplicates TOL xs \<and> no_near_duplicates TOL ys \<and>
   (\<forall>p \<in> set xs. \<forall>q \<in> set ys. TOL < dist_point p q)"
  by (induction xs) auto


lemma traverse_tri_range:
  assumes "traverse_tri F t = Inr t'"
    and "\<And>v r. F v = Inr r \<Longrightarrow> 0 \<le> r \<and> r < int n"
  shows "tri_valid n t'"
proof -
  obtain a b c where t: "t = (a, b, c)" by (cases t)
  from assms(1) obtain a' b' c' where
    "F a = Inr a'" "F b = Inr b'" "F c = Inr c'" "t' = (a', b', c')"
    by (auto simp: traverse_tri_def t and_then_Inr)
  with assms(2) show ?thesis by (auto simp: tri_valid_def)
qed

lemma traverse_set:
  assumes "traverse f xs = Inr ys" and "y \<in> set ys"
  shows "\<exists>x \<in> set xs. f x = Inr y"
proof -
  from traverse_Inr[OF assms(1)] have la: "list_all2 (\<lambda>x y. f x = Inr y) xs ys" .
  from assms(2) obtain n where "n < length ys" "ys ! n = y" by (auto simp: in_set_conv_nth)
  with la have "f (xs ! n) = Inr y" "n < length xs"
    by (auto simp: list_all2_conv_all_nth)
  then show ?thesis by (auto intro: nth_mem)
qed

lemma tris_range:
  assumes "traverse (\<lambda>b. and_then (traverse_tris F (tris b)) (\<lambda>ts. Inr (b\<lparr>tris := ts\<rparr>))) bs0
             = Inr bs'"
    and "\<And>v r. F v = Inr r \<Longrightarrow> 0 \<le> r \<and> r < int n"
  shows "\<forall>b \<in> set bs'. \<forall>t \<in> set (tris b). tri_valid n t"
proof (intro ballI)
  fix b t assume b: "b \<in> set bs'" and t: "t \<in> set (tris b)"
  from traverse_set[OF assms(1) b] obtain b0 ts where
    ts: "traverse_tris F (tris b0) = Inr ts" and "b = b0\<lparr>tris := ts\<rparr>"
    by (auto simp: and_then_Inr)
  with t have "t \<in> set ts" by simp
  from traverse_set[OF ts[unfolded traverse_tris_def] this]
  obtain t0 where "traverse_tri F t0 = Inr t" by auto
  then show "tri_valid n t" using assms(2) by (rule traverse_tri_range)
qed


lemma kept_eq:
  "filter (\<lambda>i. fold (\<lambda>v m. m[v := False]) (map fst (build_dup (query_pairs BP TOL)))
                  (replicate (length BP) True) ! i) [0..<length BP] =
   filter (\<lambda>i. i \<notin> snd ` set (query_pairs BP TOL)) [0..<length BP]"
  by (simp add: kept_filter build_dup_keys)

lemma build_point_list_Inr:
  fixes boundaries :: "'a PLC_scheme list"
  assumes ret: "build_point_list TOL domain sphere_pieces boundaries = Inr (g, sps', bs')"
  defines "PP \<equiv> concat (map points sphere_pieces)"
  defines "bpp \<equiv> filter (\<lambda>i. on_boundary domain (PP ! i)) [0..<length PP]"
  defines "BP \<equiv> map (\<lambda>i. PP ! i) bpp @ concat (map points boundaries)"
  defines "kept \<equiv> filter (\<lambda>i. i \<notin> snd ` set (query_pairs BP TOL)) [0..<length BP]"
  shows "g = PP @ drop (length bpp) (map (\<lambda>i. BP ! i) kept) \<and>
         sps' = offset_tris 0 sphere_pieces \<and>
         (\<forall>b \<in> set bs'. \<forall>t \<in> set (tris b).
            tri_valid (length PP + (length kept - length bpp)) t)"
proof -
  let ?dup = "build_dup (query_pairs BP TOL)"
  let ?R0 = "dict_of (zip (map int kept) (map int [0..<length kept]))"
  let ?M = "dict_of (zip (map int [0..<length bpp]) (map int bpp)) ++
            dict_of (map (\<lambda>v. (int v + int (length bpp), int v + int (length PP)))
                      [0..<length kept - length bpp])"
  from ret obtain items bs'' where
    items: "traverse (\<lambda>(k, v). and_then (getitem ?R0 (int v)) (\<lambda>r. Inr (int k, r))) ?dup
              = Inr items"
    and trav: "traverse (\<lambda>b. and_then
                 (traverse_tris (\<lambda>v. and_then (getitem (?R0 ++ dict_of items) v) (getitem ?M))
                    (tris b))
                 (\<lambda>ts. Inr (b\<lparr>tris := ts\<rparr>)))
               (offset_tris (int (length bpp)) boundaries) = Inr bs''"
    and res: "(g, sps', bs') =
              (PP @ drop (length bpp) (map (\<lambda>i. BP ! i) kept), offset_tris 0 sphere_pieces, bs'')"
    unfolding build_point_list_def Let_def and_then_Inr
      PP_def[symmetric] bpp_def[symmetric] BP_def[symmetric] kept_eq kept_def[symmetric]
    by auto
  have bpp_lt: "\<forall>i \<in> set bpp. i < length PP" by (auto simp: bpp_def)
  have rng: "0 \<le> r \<and> r < int (length PP + (length kept - length bpp))"
    if "and_then (getitem (?R0 ++ dict_of items) v) (getitem ?M) = Inr r" for v r
  proof -
    from that obtain c where "getitem ?M c = Inr r" unfolding and_then_Inr by blast
    then have "?M c = Some r" by (simp only: getitem_Inr)
    from remap_range[OF this bpp_lt] show ?thesis .
  qed
  from tris_range[OF trav rng] res show ?thesis by simp
qed


lemma filter_upt_split:
  "nb \<le> N \<Longrightarrow> filter P [0..<N] = filter P [0..<nb] @ filter P [nb..<N]"
proof -
  assume "nb \<le> N"
  then have "[0..<N] = [0..<nb] @ [nb..<N]"
    using upt_add_eq_append[of 0 nb "N - nb"] by simp
  then show ?thesis by (metis filter_append)
qed

lemma filter_all_upt: "(\<forall>i < nb. P i) \<Longrightarrow> filter P [0..<nb] = [0..<nb]"
  by (simp add: filter_id_conv)

lemma sorted_filter_upt: "sorted_wrt (<) (filter P [a..<b])"
  by (rule sorted_wrt_filter) (rule sorted_wrt_upt)

lemma no_near_duplicates_new:
  fixes BP :: "point list" and TOL :: real
  defines "D \<equiv> snd ` set (query_pairs BP TOL)"
  shows "no_near_duplicates TOL (map (\<lambda>i. BP ! i) (filter (\<lambda>i. i \<notin> D) [a..<length BP]))"
proof -
  let ?new = "filter (\<lambda>i. i \<notin> D) [a..<length BP]"
  have "TOL < dist_point (map (\<lambda>i. BP ! i) ?new ! i) (map (\<lambda>i. BP ! i) ?new ! j)"
    if ij: "i < j \<and> j < length (map (\<lambda>i. BP ! i) ?new)" for i j
  proof -
    from ij have j: "j < length ?new" and i: "i < length ?new" by auto
    have lt: "?new ! i < ?new ! j"
      using sorted_filter_upt[of "\<lambda>i. i \<notin> D" a "length BP"] ij j
      by (auto dest: sorted_wrt_nth_less)
    have "?new ! j \<in> set ?new" using j by (rule nth_mem)
    then have jn: "?new ! j \<notin> D" "?new ! j < length BP" by auto
    have "\<not> dist_point (BP ! (?new ! i)) (BP ! (?new ! j)) \<le> TOL"
    proof
      assume "dist_point (BP ! (?new ! i)) (BP ! (?new ! j)) \<le> TOL"
      with lt jn(2) have "(?new ! i, ?new ! j) \<in> set (query_pairs BP TOL)"
        by (simp add: query_pairs_iff)
      then have "?new ! j \<in> D" unfolding D_def by force
      with jn(1) show False by simp
    qed
    then show ?thesis using i j by simp
  qed
  then show ?thesis unfolding no_near_duplicates_iff by blast
qed


lemma dist_point_le_iff:
  "dist_point (x, y, z) (u, v, w) \<le> r \<longleftrightarrow>
     0 \<le> r \<and> (x - u)\<^sup>2 + (y - v)\<^sup>2 + (z - w)\<^sup>2 \<le> r\<^sup>2"
proof (cases "0 \<le> r")
  case True
  then show ?thesis
    unfolding dist_point_def prod.case
    by (metis real_sqrt_le_iff real_sqrt_abs abs_of_nonneg)
next
  case False
  have "0 \<le> dist_point (x, y, z) (u, v, w)" by (simp add: dist_point_def)
  with False show ?thesis by simp
qed

lemma dist_point_le:
  "dist_point p q \<le> r \<longleftrightarrow>
     0 \<le> r \<and> (case p of (x, y, z) \<Rightarrow> case q of (u, v, w) \<Rightarrow>
               (x - u)\<^sup>2 + (y - v)\<^sup>2 + (z - w)\<^sup>2 \<le> r\<^sup>2)"
  by (cases p, cases q) (simp add: dist_point_le_iff)

lemma dist_point_gt:
  "r < dist_point p q \<longleftrightarrow>
     r < 0 \<or> (case p of (x, y, z) \<Rightarrow> case q of (u, v, w) \<Rightarrow>
               r\<^sup>2 < (x - u)\<^sup>2 + (y - v)\<^sup>2 + (z - w)\<^sup>2)"
  using dist_point_le[of p q r] by (auto split: prod.splits)


lemma add_tri_zero: "add_tri t 0 = t"
  by (cases t) (simp add: add_tri_def)

lemma offset_tris_single: "offset_tris 0 [p] = [p]"
  by (simp add: add_tri_zero)

lemma kept_all: "filter (\<lambda>i. replicate n True ! i) [0..<n] = [0..<n]"
  by (simp add: filter_id_conv)

lemma identity_dict:
  "c < n \<Longrightarrow> dict_of (zip (map int [0..<n]) (map int [0..<n])) (int c) = Some (int c)"
  using reindex_lookup[of "[0..<n]" c] by simp

lemma identity_remap:
  assumes "c < n"
  shows "dict_of (map (\<lambda>v. (int v + 0, int v + 0)) [0..<n]) (int c) = Some (int c)"
proof -
  let ?items = "map (\<lambda>v. (int v, int v)) [0..<n]"
  have d: "distinct (map fst ?items)" by (simp add: distinct_map comp_def inj_on_def)
  have "(int c, int c) \<in> set ?items" using assms by auto
  then have "map_of ?items (int c) = Some (int c)" using d by (rule map_of_is_SomeI[rotated])
  then show ?thesis by (simp add: dict_of_distinct[OF d])
qed

lemma traverse_tris_identity:
  assumes "\<forall>t \<in> set ts. tri_valid n t"
    and "\<And>c. c < n \<Longrightarrow> F (int c) = Inr (int c)"
  shows "traverse_tris F ts = Inr ts"
proof -
  have F: "F v = Inr v" if "0 \<le> v" "v < int n" for v
    using assms(2)[of "nat v"] that by simp
  have "traverse_tri F t = Inr t" if "t \<in> set ts" for t
  proof -
    obtain a b c where t: "t = (a, b, c)" by (cases t)
    from assms(1) that have "tri_valid n (a, b, c)" by (simp add: t)
    then show ?thesis by (simp add: t traverse_tri_def tri_valid_def F and_then_def)
  qed
  then have "traverse (traverse_tri F) ts = Inr (map (\<lambda>t. t) ts)"
    by (intro traverse_map) simp
  then show ?thesis by (simp add: traverse_tris_def)
qed


lemma no_near_duplicates_sub:
  assumes "no_near_duplicates TOL g" and "sorted_wrt (<) idx" and "\<forall>i \<in> set idx. i < length g"
  shows "no_near_duplicates TOL (map (\<lambda>i. g ! i) idx)"
  unfolding no_near_duplicates_iff
proof (intro allI impI)
  fix i j assume ij: "i < j \<and> j < length (map (\<lambda>i. g ! i) idx)"
  then have "idx ! i < idx ! j" using assms(2) by (auto dest: sorted_wrt_nth_less)
  moreover have "idx ! j < length g" using assms(3) ij by simp
  ultimately have "TOL < dist_point (g ! (idx ! i)) (g ! (idx ! j))"
    using assms(1) unfolding no_near_duplicates_iff by blast
  then show "TOL < dist_point (map (\<lambda>i. g ! i) idx ! i) (map (\<lambda>i. g ! i) idx ! j)"
    using ij by simp
qed

lemma dict_of_Nil: "dict_of [] = Map.empty"
  by (simp add: dict_of_def)

lemma and_then_simps: "and_then (Inr x) f = f x" "and_then (Inl e) f = Inl e"
  by (simp_all add: and_then_def)


lemma no_near_duplicates_Cons_eval:
  "no_near_duplicates TOL (p # ps) \<longleftrightarrow>
     (\<forall>q \<in> set ps. TOL < 0 \<or> (case p of (x, y, z) \<Rightarrow> case q of (u, v, w) \<Rightarrow>
               TOL\<^sup>2 < (x - u)\<^sup>2 + (y - v)\<^sup>2 + (z - w)\<^sup>2)) \<and>
     no_near_duplicates TOL ps"
  by (simp add: dist_point_gt)

section \<open>Vertex merge: the invariant of the global point array\<close>

text \<open>The invariant of the merge, under the three conditions on the sphere pieces.\<close>

lemma merge_invariant:
  fixes boundaries :: "'a PLC_scheme list"
  assumes ret: "build_point_list TOL domain sphere_pieces boundaries = Inr (g, sps', bs')"
    and H1: "no_near_duplicates TOL (concat (map points sphere_pieces))"
    and H2: "\<forall>p \<in> set (concat (map points sphere_pieces)).
             \<forall>q \<in> set (concat (map points boundaries)).
               dist_point p q \<le> TOL \<longrightarrow> on_boundary domain p"
    and H3: "\<forall>p \<in> set sphere_pieces. \<forall>t \<in> set (tris p). tri_valid (length (points p)) t"
  shows "no_near_duplicates TOL g \<and>
         (\<forall>p \<in> set sps'. \<forall>t \<in> set (tris p). tri_valid (length g) t) \<and>
         (\<forall>b \<in> set bs'. \<forall>t \<in> set (tris b). tri_valid (length g) t)"
proof -
  define PP where "PP = concat (map points sphere_pieces)"
  define BQ where "BQ = concat (map points boundaries)"
  define bpp where "bpp = filter (\<lambda>i. on_boundary domain (PP ! i)) [0..<length PP]"
  define BP where "BP = map (\<lambda>i. PP ! i) bpp @ BQ"
  define D where "D = snd ` set (query_pairs BP TOL)"
  define kept where "kept = filter (\<lambda>i. i \<notin> D) [0..<length BP]"
  define new where "new = filter (\<lambda>i. i \<notin> D) [length bpp..<length BP]"
  note defs = PP_def BQ_def bpp_def BP_def D_def kept_def
  have g: "g = PP @ drop (length bpp) (map (\<lambda>i. BP ! i) kept)"
    and sps': "sps' = offset_tris 0 sphere_pieces"
    and bs': "\<forall>b \<in> set bs'. \<forall>t \<in> set (tris b).
               tri_valid (length PP + (length kept - length bpp)) t"
    using build_point_list_Inr[OF ret]
    unfolding kept_def D_def BP_def bpp_def BQ_def PP_def by blast+
  have nndPP: "\<forall>i j. i < j \<and> j < length PP \<longrightarrow> TOL < dist_point (PP ! i) (PP ! j)"
    using H1 unfolding PP_def[symmetric] no_near_duplicates_iff .
  have bpp_sorted: "sorted_wrt (<) bpp" unfolding bpp_def by (rule sorted_filter_upt)
  have bpp_lt: "\<And>c. c < length bpp \<Longrightarrow> bpp ! c < length PP"
    using nth_mem[of _ bpp] by (auto simp: bpp_def)
  have BP_low: "\<And>c. c < length bpp \<Longrightarrow> BP ! c = PP ! (bpp ! c)"
    by (simp add: BP_def nth_append)
  have lenBP: "length BP = length bpp + length BQ" by (simp add: BP_def)
  have low_kept: "i \<notin> D" if i: "i < length bpp" for i
  proof
    assume "i \<in> D"
    then obtain k where "(k, i) \<in> set (query_pairs BP TOL)" unfolding D_def by force
    then have k: "k < i" and d: "dist_point (BP ! k) (BP ! i) \<le> TOL"
      by (simp_all add: query_pairs_iff)
    from k i have kb: "k < length bpp" by simp
    from bpp_sorted k i have "bpp ! k < bpp ! i" by (auto dest: sorted_wrt_nth_less)
    with nndPP bpp_lt[OF i] have "TOL < dist_point (PP ! (bpp ! k)) (PP ! (bpp ! i))" by blast
    with d show False by (simp add: BP_low[OF kb] BP_low[OF i])
  qed
  have kept_split: "kept = [0..<length bpp] @ new"
  proof -
    have "kept = filter (\<lambda>i. i \<notin> D) [0..<length bpp] @ new"
      unfolding kept_def new_def by (rule filter_upt_split) (simp add: lenBP)
    moreover have "filter (\<lambda>i. i \<notin> D) [0..<length bpp] = [0..<length bpp]"
      by (rule filter_all_upt) (simp add: low_kept)
    ultimately show ?thesis by simp
  qed
  have g': "g = PP @ map (\<lambda>i. BP ! i) new" by (simp add: g kept_split)
  have len_g: "length g = length PP + (length kept - length bpp)"
    by (simp add: g' kept_split)
  have nnd_new: "no_near_duplicates TOL (map (\<lambda>i. BP ! i) new)"
    unfolding new_def D_def by (rule no_near_duplicates_new)
  have cross: "TOL < dist_point p q" if p: "p \<in> set PP" and q: "q \<in> set (map (\<lambda>i. BP ! i) new)"
    for p q
  proof (rule ccontr)
    assume "\<not> TOL < dist_point p q"
    then have d: "dist_point p q \<le> TOL" by simp
    from q obtain j where j: "j \<in> set new" and qj: "q = BP ! j" by auto
    from j have jr: "length bpp \<le> j" "j < length BP" "j \<notin> D" by (auto simp: new_def)
    then have "q = BQ ! (j - length bpp)" "j - length bpp < length BQ"
      by (auto simp: qj BP_def nth_append)
    then have "q \<in> set BQ" by simp
    with H2 p d have ob: "on_boundary domain p" unfolding PP_def BQ_def by blast
    from p obtain a where a: "a < length PP" "PP ! a = p" by (auto simp: in_set_conv_nth)
    with ob have "a \<in> set bpp" by (simp add: bpp_def)
    then obtain c where c: "c < length bpp" "bpp ! c = a" by (auto simp: in_set_conv_nth)
    then have "BP ! c = p" using a by (simp add: BP_low)
    with d qj c jr have "(c, j) \<in> set (query_pairs BP TOL)" by (simp add: query_pairs_iff)
    then have "j \<in> D" unfolding D_def by force
    with jr show False by simp
  qed
  have 1: "no_near_duplicates TOL g"
    unfolding g' no_near_duplicates_append using H1 nnd_new cross by (simp add: PP_def)
  have "\<forall>p \<in> set (offset_tris (int 0) sphere_pieces). \<forall>t \<in> set (tris p).
          tri_valid (0 + length (concat (map points sphere_pieces))) t"
    using H3 by (rule offset_tris_valid)
  then have "\<forall>p \<in> set sps'. \<forall>t \<in> set (tris p). tri_valid (length PP) t"
    unfolding sps' by (simp add: PP_def)
  moreover have "length PP \<le> length g" by (simp add: len_g)
  ultimately have 2: "\<forall>p \<in> set sps'. \<forall>t \<in> set (tris p). tri_valid (length g) t"
    by (blast intro: tri_valid_mono)
  from bs' have 3: "\<forall>b \<in> set bs'. \<forall>t \<in> set (tris b). tri_valid (length g) t"
    by (simp add: len_g)
  from 1 2 3 show ?thesis by blast
qed

text \<open>
  Claim C1, as the code has it. The sphere-piece points are copied to the global array
  as they are and only those flagged by \<^verbatim>\<open>np.isclose\<close> against a boundary plane take
  part in the proximity query. So: when the sphere-piece points have no near-duplicates
  among themselves, when every sphere-piece point that lies within \<open>TOL\<close> of a
  boundary-patch point is one of the flagged points, and when the triangles of every
  sphere piece index into the points of that piece, then every global point array that
  \<^verbatim>\<open>build_point_list\<close> returns has no two entries within \<open>TOL\<close> of each other, and
  all triangles of the sphere pieces and of the boundary patches, as rewritten by the
  function, have their indices in \<open>[0, len(global_points))\<close>.
\<close>

theorem build_point_list_invariant:
  fixes boundaries :: "'a PLC_scheme list"
  assumes ret: "build_point_list TOL domain sphere_pieces boundaries = Inr (g, sps', bs')"
    and H1: "no_near_duplicates TOL (concat (map points sphere_pieces))"
    and H2: "\<forall>p \<in> set (concat (map points sphere_pieces)).
             \<forall>q \<in> set (concat (map points boundaries)).
               dist_point p q \<le> TOL \<longrightarrow> on_boundary domain p"
    and H3: "\<forall>p \<in> set sphere_pieces. \<forall>t \<in> set (tris p). tri_valid (length (points p)) t"
  shows "no_near_duplicates TOL g \<and>
         (\<forall>p \<in> set sps'. \<forall>t \<in> set (tris p). tri_valid (length g) t) \<and>
         (\<forall>b \<in> set bs'. \<forall>t \<in> set (tris b). tri_valid (length g) t)"
  using assms by (rule merge_invariant)

theorem build_point_list_invariant_witness:
  "no_near_duplicates (1 / 10 ^ 10) [(0, 0, 0), (0, 1, 0), (0, 0, 1), (0, 1, 1)] \<and>
   tri_valid (length [(0, 0, 0), (0, 1, 0), (0, 0, 1), (0, 1, 1 :: real)]) (0, 1, 2) \<and>
   tri_valid (length [(0, 0, 0), (0, 1, 0), (0, 0, 1), (0, 1, 1 :: real)]) (1, 3, 2)"
proof -
  let ?p = "\<lparr>points = [(0, 0, 0), (0, 1, 0), (0, 0, 1)], tris = [(0, 1, 2)],
        sphere = \<lparr>sphere_id = 0, sphere_x = (0, 0, 0)\<rparr>, is_hole = False\<rparr>"
  let ?b = "\<lparr>points = [(0, 0, 0), (0, 1, 0), (0, 0, 1), (0, 1, 1)],
        tris = [(0, 1, 2), (1, 3, 2)]\<rparr>"
  let ?g = "[(0, 0, 0), (0, 1, 0), (0, 0, 1), (0, 1, 1)] :: point list"
  have run: "build_point_list (1 / 10 ^ 10) \<lparr>L = (1, 1, 1)\<rparr> [?p] [?b] = Inr (?g, [?p], [?b])"
    unfolding build_point_list_def Let_def query_pairs_def dist_point_le
    by (simp add: upt_conv_Cons power2_eq_square on_boundary_def isclose_def build_dup_def
        dict_of_def and_then_def getitem_def traverse_tris_def traverse_tri_def add_tri_def)
  have h1: "no_near_duplicates (1 / 10 ^ 10) (concat (map points [?p]))"
    by (simp add: no_near_duplicates_Cons_eval power2_eq_square del: no_near_duplicates.simps(2))
  have h2: "\<forall>p \<in> set (concat (map points [?p])). \<forall>q \<in> set (concat (map points [?b])).
              dist_point p q \<le> 1 / 10 ^ 10 \<longrightarrow> on_boundary \<lparr>L = (1, 1, 1)\<rparr> p"
    by (simp add: on_boundary_def isclose_def)
  have h3: "\<forall>p \<in> set [?p]. \<forall>t \<in> set (tris p). tri_valid (length (points p)) t"
    by (simp add: tri_valid_def)
  from build_point_list_invariant [OF run h1 h2 h3] show ?thesis by simp
qed

text \<open>
  The claim as stated fails where two sphere-piece points coincide: a piece with the
  point \<open>(1/2, 1/2, 1/2)\<close> twice, away from every boundary plane, and no boundary
  patch. Both copies are returned.
\<close>

theorem build_point_list_keeps_piece_duplicates:
  "build_point_list (1 / 10 ^ 10) \<lparr>L = (1, 1, 1)\<rparr>
     [\<lparr>points = [(1/2, 1/2, 1/2), (1/2, 1/2, 1/2)], tris = [],
        sphere = \<lparr>sphere_id = 0, sphere_x = (1/2, 1/2, 1/2)\<rparr>, is_hole = False\<rparr>]
     ([] :: PLC list) =
   Inr ([(1/2, 1/2, 1/2), (1/2, 1/2, 1/2)],
        [\<lparr>points = [(1/2, 1/2, 1/2), (1/2, 1/2, 1/2)], tris = [],
           sphere = \<lparr>sphere_id = 0, sphere_x = (1/2, 1/2, 1/2)\<rparr>, is_hole = False\<rparr>], []) \<and>
   \<not> no_near_duplicates (1 / 10 ^ 10) [(1/2, 1/2, 1/2), (1/2, 1/2, 1/2)]"
proof
  show "build_point_list (1 / 10 ^ 10) \<lparr>L = (1, 1, 1)\<rparr>
     [\<lparr>points = [(1/2, 1/2, 1/2), (1/2, 1/2, 1/2)], tris = [],
        sphere = \<lparr>sphere_id = 0, sphere_x = (1/2, 1/2, 1/2)\<rparr>, is_hole = False\<rparr>]
     ([] :: PLC list) =
   Inr ([(1/2, 1/2, 1/2), (1/2, 1/2, 1/2)],
        [\<lparr>points = [(1/2, 1/2, 1/2), (1/2, 1/2, 1/2)], tris = [],
           sphere = \<lparr>sphere_id = 0, sphere_x = (1/2, 1/2, 1/2)\<rparr>, is_hole = False\<rparr>], [])"
    unfolding build_point_list_def Let_def query_pairs_def dist_point_le
    by (simp add: upt_conv_Cons power2_eq_square on_boundary_def isclose_def build_dup_def
        dict_of_def and_then_def)
  show "\<not> no_near_duplicates (1 / 10 ^ 10) [(1/2, 1/2, 1/2), (1/2, 1/2, 1/2)]"
    by (simp add: no_near_duplicates_Cons_eval power2_eq_square del: no_near_duplicates.simps(2))
qed

section \<open>Vertex merge: chains of near-duplicates\<close>

text \<open>
  Claim C3, at a chain. Three boundary points on a line, \<open>3/4 TOL\<close> apart: the first
  and the second are within \<open>TOL\<close>, the second and the third are, the first and the
  third are not. The query reports the pairs \<open>(0, 1)\<close> and \<open>(1, 2)\<close>, the loop stores
  \<open>dup[1] = 0\<close> and \<open>dup[2] = 1\<close>, both points are removed, and the comprehension
  \<^verbatim>\<open>{k: reindex[v] for k, v in dup.items()}\<close> looks up \<open>reindex[1]\<close>, which does not
  exist: the function raises \<^verbatim>\<open>KeyError\<close> and collapses nothing.
\<close>

theorem build_point_list_chain_raises:
  "build_point_list (1 / 10 ^ 10) \<lparr>L = (1, 1, 1)\<rparr> []
     [\<lparr>points = [(0, 0, 0), (3 / (4 * 10 ^ 10), 0, 0), (3 / (2 * 10 ^ 10), 0, 0)],
        tris = [(0, 1, 2)]\<rparr>] = Inl KeyError"
  unfolding build_point_list_def Let_def query_pairs_def dist_point_le
  by (simp add: upt_conv_Cons power2_eq_square on_boundary_def isclose_def build_dup_def
      dict_of_def and_then_def getitem_def)

section \<open>Vertex merge: idempotence\<close>

text \<open>
  A point array \<open>g\<close> without near-duplicates that is given to \<^verbatim>\<open>build_point_list\<close> as
  one source: as the only boundary patch, with triangles that index into it, or as the
  only sphere piece. In both cases the function returns \<open>g\<close> itself and leaves every
  triangle as it was.
\<close>

lemma build_point_list_fixed_point:
  fixes b :: "'a PLC_scheme" and p :: SpherePiece
  assumes nnd: "no_near_duplicates TOL g"
    and valid: "\<forall>t \<in> set (tris b). tri_valid (length g) t"
    and b: "points b = g" and p: "points p = g"
  shows "build_point_list TOL domain [] [b] = Inr (g, [], [b]) \<and>
         build_point_list TOL domain [p] ([] :: 'a PLC_scheme list) = Inr (g, [p], [])"
proof
  have qp: "query_pairs g TOL = []" using nnd by (rule query_pairs_empty)
  let ?R = "dict_of (zip (map int [0..<length g]) (map int [0..<length g]))"
  let ?M = "dict_of (map (\<lambda>v. (int v, int v)) [0..<length g])"
  have F: "and_then (getitem ?R (int c)) (getitem ?M) = Inr (int c)" if "c < length g" for c
    using that identity_remap[of c "length g"]
    by (simp add: and_then_def getitem_def identity_dict)
  have tt: "traverse_tris (\<lambda>v. and_then (getitem ?R v) (getitem ?M)) (tris b) = Inr (tris b)"
    using valid F by (rule traverse_tris_identity)
  show "build_point_list TOL domain [] [b] = Inr (g, [], [b])"
    unfolding build_point_list_def Let_def
    by (simp add: b qp build_dup_def kept_all map_nth add_tri_zero and_then_simps tt
          dict_of_Nil del: upt_Suc)
next
  define bpp where "bpp = filter (\<lambda>i. on_boundary domain (g ! i)) [0..<length g]"
  have "no_near_duplicates TOL (map (\<lambda>i. g ! i) bpp)"
    using nnd by (rule no_near_duplicates_sub) (auto simp: bpp_def sorted_filter_upt)
  then have qp: "query_pairs (map (\<lambda>i. g ! i) bpp) TOL = []" by (rule query_pairs_empty)
  show "build_point_list TOL domain [p] ([] :: 'a PLC_scheme list) = Inr (g, [p], [])"
    unfolding build_point_list_def Let_def
    by (simp add: p bpp_def[symmetric] qp build_dup_def kept_all map_nth add_tri_zero
          and_then_simps dict_of_Nil del: upt_Suc)
qed

text \<open>
  Claim C9, as the code has it. Take a run of \<^verbatim>\<open>build_point_list\<close> whose input meets
  the three conditions of the invariant: the sphere-piece points have no near-duplicates
  among themselves, every sphere-piece point within \<open>TOL\<close> of a boundary-patch point is
  flagged as lying on a boundary plane, and the triangles of every sphere piece index
  into the points of that piece. Let \<open>g\<close> be the global point array it returns. Then
  \<open>g\<close>, given back as one source together with all the triangles that the run returned
  (as the only boundary patch, or as the only sphere piece, for any domain), comes back
  as \<open>g\<close> itself and every triangle is left as it was.
\<close>

theorem build_point_list_rerun_identity:
  fixes boundaries :: "'a PLC_scheme list"
  assumes run: "build_point_list TOL domain sphere_pieces boundaries = Inr (g, sps', bs')"
    and H1: "no_near_duplicates TOL (concat (map points sphere_pieces))"
    and H2: "\<forall>p \<in> set (concat (map points sphere_pieces)).
             \<forall>q \<in> set (concat (map points boundaries)).
               dist_point p q \<le> TOL \<longrightarrow> on_boundary domain p"
    and H3: "\<forall>p \<in> set sphere_pieces. \<forall>t \<in> set (tris p). tri_valid (length (points p)) t"
  shows "build_point_list TOL domain' []
           [\<lparr>points = g, tris = concat (map tris sps') @ concat (map tris bs')\<rparr>] =
         Inr (g, [], [\<lparr>points = g, tris = concat (map tris sps') @ concat (map tris bs')\<rparr>]) \<and>
         build_point_list TOL domain'
           [\<lparr>points = g, tris = concat (map tris sps') @ concat (map tris bs'),
              sphere = s, is_hole = h\<rparr>] ([] :: PLC list) =
         Inr (g, [\<lparr>points = g, tris = concat (map tris sps') @ concat (map tris bs'),
                    sphere = s, is_hole = h\<rparr>], [])"
proof -
  let ?ts = "concat (map tris sps') @ concat (map tris bs')"
  from merge_invariant [OF run H1 H2 H3]
  have nnd: "no_near_duplicates TOL g"
    and v1: "\<forall>p \<in> set sps'. \<forall>t \<in> set (tris p). tri_valid (length g) t"
    and v2: "\<forall>b \<in> set bs'. \<forall>t \<in> set (tris b). tri_valid (length g) t"
    by blast+
  from v1 v2 have valid: "\<forall>t \<in> set (tris \<lparr>points = g, tris = ?ts\<rparr>). tri_valid (length g) t"
    by auto
  from build_point_list_fixed_point
    [of TOL g "\<lparr>points = g, tris = ?ts\<rparr>"
        "\<lparr>points = g, tris = ?ts, sphere = s, is_hole = h\<rparr>" domain', OF nnd valid]
  show ?thesis by simp
qed

text \<open>A run that removes three duplicate points, and the second run on its output.\<close>

theorem build_point_list_rerun_identity_witness:
  "build_point_list (1 / 10 ^ 10) \<lparr>L = (1, 1, 1)\<rparr> []
     [\<lparr>points = [(0, 0, 0), (0, 1, 0), (0, 0, 1), (0, 1, 1)],
        tris = [(0, 1, 2), (0, 1, 2), (1, 3, 2)]\<rparr>] =
   Inr ([(0, 0, 0), (0, 1, 0), (0, 0, 1), (0, 1, 1)], [],
     [\<lparr>points = [(0, 0, 0), (0, 1, 0), (0, 0, 1), (0, 1, 1)],
        tris = [(0, 1, 2), (0, 1, 2), (1, 3, 2)]\<rparr>])"
proof -
  let ?p = "\<lparr>points = [(0, 0, 0), (0, 1, 0), (0, 0, 1)], tris = [(0, 1, 2)],
        sphere = \<lparr>sphere_id = 0, sphere_x = (0, 0, 0)\<rparr>, is_hole = False\<rparr>"
  let ?b = "\<lparr>points = [(0, 0, 0), (0, 1, 0), (0, 0, 1), (0, 1, 1)],
        tris = [(0, 1, 2), (1, 3, 2)]\<rparr>"
  let ?g = "[(0, 0, 0), (0, 1, 0), (0, 0, 1), (0, 1, 1)] :: point list"
  have run: "build_point_list (1 / 10 ^ 10) \<lparr>L = (1, 1, 1)\<rparr> [?p] [?b] = Inr (?g, [?p], [?b])"
    unfolding build_point_list_def Let_def query_pairs_def dist_point_le
    by (simp add: upt_conv_Cons power2_eq_square on_boundary_def isclose_def build_dup_def
        dict_of_def and_then_def getitem_def traverse_tris_def traverse_tri_def add_tri_def)
  have h1: "no_near_duplicates (1 / 10 ^ 10) (concat (map points [?p]))"
    by (simp add: no_near_duplicates_Cons_eval power2_eq_square del: no_near_duplicates.simps(2))
  have h2: "\<forall>p \<in> set (concat (map points [?p])). \<forall>q \<in> set (concat (map points [?b])).
              dist_point p q \<le> 1 / 10 ^ 10 \<longrightarrow> on_boundary \<lparr>L = (1, 1, 1)\<rparr> p"
    by (simp add: on_boundary_def isclose_def)
  have h3: "\<forall>p \<in> set [?p]. \<forall>t \<in> set (tris p). tri_valid (length (points p)) t"
    by (simp add: tri_valid_def)
  from build_point_list_rerun_identity [OF run h1 h2 h3, of "\<lparr>L = (1, 1, 1)\<rparr>"]
  show ?thesis by simp
qed

text \<open>
  The claim as stated fails for a run whose output holds a duplicate. The piece with the
  point \<open>(1/2, 1/2, 1/2)\<close> twice and the triangle \<open>(0, 1, 1)\<close> comes back with both
  copies. Given back as the only boundary patch, the two copies are merged: one point is
  returned and the triangle is rewritten to \<open>(0, 0, 0)\<close>.
\<close>

theorem build_point_list_rerun_merges_duplicates:
  "build_point_list (1 / 10 ^ 10) \<lparr>L = (1, 1, 1)\<rparr>
     [\<lparr>points = [(1/2, 1/2, 1/2), (1/2, 1/2, 1/2)], tris = [(0, 1, 1)],
        sphere = \<lparr>sphere_id = 0, sphere_x = (1/2, 1/2, 1/2)\<rparr>, is_hole = False\<rparr>]
     ([] :: PLC list) =
   Inr ([(1/2, 1/2, 1/2), (1/2, 1/2, 1/2)],
        [\<lparr>points = [(1/2, 1/2, 1/2), (1/2, 1/2, 1/2)], tris = [(0, 1, 1)],
           sphere = \<lparr>sphere_id = 0, sphere_x = (1/2, 1/2, 1/2)\<rparr>, is_hole = False\<rparr>], []) \<and>
   build_point_list (1 / 10 ^ 10) \<lparr>L = (1, 1, 1)\<rparr> []
     [\<lparr>points = [(1/2, 1/2, 1/2), (1/2, 1/2, 1/2)], tris = [(0, 1, 1)]\<rparr>] =
   Inr ([(1/2, 1/2, 1/2)], [],
        [\<lparr>points = [(1/2, 1/2, 1/2), (1/2, 1/2, 1/2)], tris = [(0, 0, 0)]\<rparr>])"
proof
  show "build_point_list (1 / 10 ^ 10) \<lparr>L = (1, 1, 1)\<rparr>
     [\<lparr>points = [(1/2, 1/2, 1/2), (1/2, 1/2, 1/2)], tris = [(0, 1, 1)],
        sphere = \<lparr>sphere_id = 0, sphere_x = (1/2, 1/2, 1/2)\<rparr>, is_hole = False\<rparr>]
     ([] :: PLC list) =
   Inr ([(1/2, 1/2, 1/2), (1/2, 1/2, 1/2)],
        [\<lparr>points = [(1/2, 1/2, 1/2), (1/2, 1/2, 1/2)], tris = [(0, 1, 1)],
           sphere = \<lparr>sphere_id = 0, sphere_x = (1/2, 1/2, 1/2)\<rparr>, is_hole = False\<rparr>], [])"
    unfolding build_point_list_def Let_def query_pairs_def dist_point_le
    by (simp add: upt_conv_Cons power2_eq_square on_boundary_def isclose_def build_dup_def
        dict_of_def and_then_def add_tri_def)
  show "build_point_list (1 / 10 ^ 10) \<lparr>L = (1, 1, 1)\<rparr> []
     [\<lparr>points = [(1/2, 1/2, 1/2), (1/2, 1/2, 1/2)], tris = [(0, 1, 1)]\<rparr>] =
   Inr ([(1/2, 1/2, 1/2)], [],
        [\<lparr>points = [(1/2, 1/2, 1/2), (1/2, 1/2, 1/2)], tris = [(0, 0, 0)]\<rparr>])"
    unfolding build_point_list_def Let_def query_pairs_def dist_point_le
    by (simp add: upt_conv_Cons power2_eq_square on_boundary_def isclose_def build_dup_def
        dict_of_def and_then_def getitem_def traverse_tris_def traverse_tri_def add_tri_def)
qed

section \<open>Zero snap\<close>

lemma snap_cases:
  "(\<bar>c\<bar> \<le> 1 / 10 ^ 8 \<longrightarrow> snap c = 0) \<and> (1 / 10 ^ 8 < \<bar>c\<bar> \<longrightarrow> snap c = c)"
  by (simp add: snap_def isclose_def)

text \<open>
  The points that \<^verbatim>\<open>build_tetmesh\<close> hands to the engine are the merged points after
  \<^verbatim>\<open>fix_boundary_points\<close>.
\<close>

lemma build_tetmesh_points:
  assumes "build_point_list TOL domain sphere_pieces (duplicate_lower_boundaries domain boundaries)
             = Inr (g, sps', bs')"
    and "build_facet_list sps' bs' = Inr (facets, markers)"
  shows "build_tetmesh tet_build TOL domain sphere_pieces boundaries config =
         redirect_tetgen_output
           (tet_build (fix_boundary_points g) facets markers (build_hole_list sps') config)"
  using assms by (simp add: build_tetmesh_def Let_def)

text \<open>
  Claim C4, as the code has it. The snap does not use \<open>TOL\<close>: it tests each coordinate
  with \<^verbatim>\<open>np.isclose(c, 0.)\<close>, whose absolute tolerance is \<open>10\<^sup>-\<^sup>8\<close>. After the merge
  step every coordinate of the global point array whose absolute value is at most
  \<open>10\<^sup>-\<^sup>8\<close> is exactly zero, and every other coordinate is unchanged; the array keeps
  its length. Hence a coordinate within \<open>TOL\<close> of zero is exactly zero in the output
  whenever \<open>TOL \<le> 10\<^sup>-\<^sup>8\<close>.
\<close>

theorem fix_boundary_points_snap:
  assumes "i < length pts" and "pts ! i = (x, y, z)"
  shows "length (fix_boundary_points pts) = length pts \<and>
         fix_boundary_points pts ! i = (snap x, snap y, snap z) \<and>
         (\<forall>c. (\<bar>c\<bar> \<le> 1 / 10 ^ 8 \<longrightarrow> snap c = 0) \<and>
              (1 / 10 ^ 8 < \<bar>c\<bar> \<longrightarrow> snap c = c) \<and>
              (TOL \<le> 1 / 10 ^ 8 \<and> \<bar>c\<bar> \<le> TOL \<longrightarrow> snap c = 0))"
  using assms snap_cases by (auto simp: fix_boundary_points_def)

theorem fix_boundary_points_snap_witness:
  "(0::nat) < length [(1 / 10 ^ 9, 1 / 10 ^ 7, 1 :: real)] \<and>
   fix_boundary_points [(1 / 10 ^ 9, 1 / 10 ^ 7, 1)] ! 0 = (0, 1 / 10 ^ 7, 1)"
  using fix_boundary_points_snap
    [of 0 "[(1 / 10 ^ 9, 1 / 10 ^ 7, 1)]" "1 / 10 ^ 9" "1 / 10 ^ 7" 1 "1 / 10 ^ 10"]
  by (simp add: snap_def isclose_def)

text \<open>
  The claim as stated fails for \<open>TOL = 10\<^sup>-\<^sup>1\<^sup>0\<close>: the coordinate \<open>5 \<sqdot> 10\<^sup>-\<^sup>9\<close> is
  farther than \<open>TOL\<close> from zero and is set to zero.
\<close>

theorem fix_boundary_points_alters_beyond_TOL:
  "1 / 10 ^ 10 < \<bar>5 / 10 ^ 9 :: real\<bar> \<and>
   fix_boundary_points [(5 / 10 ^ 9, 1, 1)] = [(0, 1, 1)] \<and>
   (0 :: real) \<noteq> 5 / 10 ^ 9"
  by (simp add: fix_boundary_points_def snap_def isclose_def)

section \<open>The connectivity container writer and meshes without exterior faces\<close>

lemma dom_append_item: "dom (append_item d k idx) = insert k (dom d)"
  by (simp add: append_item_def)

lemma fold_append_item_dom:
  "dom (fold (\<lambda>(idx, adj). \<lambda>d. append_item (append_item d (fst adj) idx) (snd adj) idx) xs d) =
   dom d \<union> (fst \<circ> snd) ` set xs \<union> (snd \<circ> snd) ` set xs"
proof (induction xs arbitrary: d)
  case Nil
  then show ?case by simp
next
  case (Cons x xs)
  obtain idx a b where x: "x = (idx, a, b)" by (cases x)
  let ?f = "\<lambda>(idx, adj). \<lambda>d. append_item (append_item d (fst adj) idx) (snd adj) idx"
  have "fold ?f (x # xs) d = fold ?f xs (append_item (append_item d a idx) b idx)"
    unfolding x by (simp only: fold_simps case_prod_conv fst_conv snd_conv)
  then have "dom (fold ?f (x # xs) d) =
      dom (append_item (append_item d a idx) b idx) \<union> (fst \<circ> snd) ` set xs \<union>
      (snd \<circ> snd) ` set xs"
    by (simp only: Cons.IH)
  also have "\<dots> = dom d \<union> (fst \<circ> snd) ` set (x # xs) \<union> (snd \<circ> snd) ` set (x # xs)"
    unfolding dom_append_item x by auto
  finally show ?case .
qed

lemma cell_faces_of_dom:
  "dom (cell_faces_of adjacent_elements) =
   fst ` set adjacent_elements \<union> snd ` set adjacent_elements"
proof -
  have "snd ` set (enumerate 0 adjacent_elements) = set adjacent_elements"
    by (metis map_snd_enumerate set_map)
  then have "(fst \<circ> snd) ` set (enumerate 0 adjacent_elements) = fst ` set adjacent_elements"
    and "(snd \<circ> snd) ` set (enumerate 0 adjacent_elements) = snd ` set adjacent_elements"
    by (simp_all only: image_comp[symmetric])
  then show ?thesis
    by (simp only: cell_faces_of_def fold_append_item_dom dom_empty Un_empty_left)
qed

lemma write_multiflow_no_exterior_raises:
  assumes "\<forall>adj \<in> set (mesh_adjacent_elements mesh). sint (fst adj) \<noteq> - 1 \<and> sint (snd adj) \<noteq> - 1"
  shows "write_multiflow_cell_faces mesh = Inl KeyError"
proof -
  let ?adj = "map (\<lambda>(a, b). (sint a, sint b)) (mesh_adjacent_elements mesh)"
  have "- 1 \<notin> dom (cell_faces_of ?adj)"
    using assms unfolding cell_faces_of_dom by (auto simp: image_iff)
  then have "cell_faces_of ?adj (- 1) = None" by blast
  then show ?thesis
    by (simp add: write_multiflow_cell_faces_def Let_def pop_def and_then_def)
qed

text \<open>
  Claim C10, at a mesh without exterior faces: two elements that are adjacent to each
  other across both listed faces, so that no adjacent-element pair holds \<open>-1\<close>. The
  dictionary has the keys \<open>0\<close> and \<open>1\<close> only and \<^verbatim>\<open>cell_faces.pop(-1)\<close> raises
  \<^verbatim>\<open>KeyError\<close>: the write stops before the data set \<^verbatim>\<open>cellFaces\<close> is stored. The
  lemma before it says the same of every mesh in which \<open>-1\<close> does not occur; the lemma
  after it is a run on a mesh that does have exterior faces.
\<close>

theorem write_multiflow_closed_mesh_raises:
  "write_multiflow_cell_faces
     \<lparr>mesh_points = [(0, 0, 0), (1, 0, 0), (0, 1, 0), (0, 0, 1)],
      mesh_elements = [(0, 1, 2, 3), (0, 2, 1, 3)],
      mesh_faces = [(0, 1, 2), (0, 1, 3)],
      mesh_face_markers = [0, 0],
      mesh_adjacent_elements = [(0, 1), (1, 0)]\<rparr> = Inl KeyError"
  by (simp add: write_multiflow_cell_faces_def Let_def cell_faces_of_def append_item_def
      pop_def and_then_def enumerate_eq_zip upt_conv_Cons)

lemma write_multiflow_with_exterior:
  "write_multiflow_cell_faces
     \<lparr>mesh_points = [(0, 0, 0), (1, 0, 0), (0, 1, 0), (0, 0, 1)],
      mesh_elements = [(0, 1, 2, 3)],
      mesh_faces = [(0, 1, 2), (0, 1, 3), (0, 2, 3), (1, 2, 3)],
      mesh_face_markers = [1, 2, 3, 4],
      mesh_adjacent_elements = [(0, - 1), (0, - 1), (- 1, 0), (0, - 1)]\<rparr> = Inr [0, 1, 2, 3]"
  by (simp add: write_multiflow_cell_faces_def Let_def cell_faces_of_def append_item_def
      pop_def and_then_def enumerate_eq_zip upt_conv_Cons flatten_rows_def)


section \<open>The exchange format writer\<close>

lemma digit_char_digit: "n < 10 \<Longrightarrow> digit_char n \<in> set ''0123456789''"
  unfolding digit_char_def by (rule nth_mem) simp

lemma show_nat_digits: "set (show_nat n) \<subseteq> set ''0123456789''"
proof (induction n rule: show_nat.induct)
  case (1 n)
  show ?case
  proof (cases "n < 10")
    case True
    then show ?thesis using digit_char_digit[of n] by (subst show_nat.simps) simp
  next
    case False
    have "digit_char (n mod 10) \<in> set ''0123456789''" by (rule digit_char_digit) simp
    with False 1 show ?thesis by (subst show_nat.simps) simp
  qed
qed

lemma show_int_no_space: "CHR '' '' \<notin> set (show_int i)"
  using show_nat_digits[of "nat i"] show_nat_digits[of "nat (- i)"]
  by (auto simp: show_int_def)

lemma split_on_field:
  "sep \<notin> set w \<Longrightarrow> split_on sep (w @ sep # rest) = w # split_on sep rest"
  by (induction w) auto

lemma split_on_last: "sep \<notin> set w \<Longrightarrow> split_on sep w = [w]"
  by (induction w) auto

lemma element_line_fields:
  "split_on (CHR '' '') (butlast (element_line i (a, b, c) m)) =
     [show_int (int i + 1), ''2'', ''2'', show_int (if 0 < sint m then sint m else - 1), ''0'',
      show_int (sint a), show_int (sint b), show_int (sint c)]"
proof -
  let ?t = "show_int (if 0 < sint m then sint m else - 1)"
  have "butlast (element_line i (a, b, c) m) =
      show_int (int i + 1) @ CHR '' '' # (''2'' @ CHR '' '' # (''2'' @ CHR '' '' # (?t @ CHR '' '' #
      (''0'' @ CHR '' '' # (show_int (sint a) @ CHR '' '' # (show_int (sint b) @ CHR '' '' #
       show_int (sint c)))))))"
    by (simp add: element_line_def butlast_append)
  then show ?thesis
    by (simp only: split_on_field split_on_last show_int_no_space not_False_eq_True) 
       (simp add: split_on_field split_on_last show_int_no_space)
qed


lemma sint_succ:
  fixes a :: int32
  shows "sint a \<noteq> 2 ^ 31 - 1 \<Longrightarrow> sint (a + 1) = sint a + 1"
proof -
  assume ne: "sint a \<noteq> 2 ^ 31 - 1"
  have "sint a < 2 ^ 31" using sint_lt[of a] by simp
  with ne have 1: "sint a + 1 < 2 ^ 31" by simp
  have 2: "- (2 ^ 31) \<le> sint a + 1" using sint_ge[of a] by simp
  have "sint (a + 1) = signed_take_bit 31 (sint a + 1)"
    by (simp add: sint_word_ariths)
  also have "\<dots> = sint a + 1"
    using 1 2 by (simp add: signed_take_bit_int_eq_self)
  finally show ?thesis .
qed

lemma map_enumerate_nth:
  "map (\<lambda>(i, x). f i x) (enumerate 0 xs) = map (\<lambda>i. f i (xs ! i)) [0..<length xs]"
  by (rule nth_equalityI) (simp_all add: nth_enumerate_eq)


subsection \<open>The conversion of a coordinate\<close>

lemma powi_succ: "(10 :: real) powi (k + 1) = 10 powi k * 10"
  by (simp add: power_int_add)

lemma sci_normalise_range:
  assumes "0 < a" and "sci_normalise a e = (m, e')"
  shows "1 \<le> m \<and> m < 10 \<and> a = m * 10 powi (e' - e)"
  using assms
proof (induction a e rule: sci_normalise.induct)
  case (1 a e)
  show ?case
  proof (cases "10 \<le> a")
    case True
    with "1.prems" have r: "sci_normalise (a / 10) (e + 1) = (m, e')"
      by (subst (asm) sci_normalise.simps) simp
    from True have "0 < a / 10" by simp
    from "1.IH"(1)[OF True this r]
    have m: "1 \<le> m" "m < 10" and a: "a / 10 = m * 10 powi (e' - (e + 1))" by blast+
    have "10 powi (e' - e) = (10 :: real) powi (e' - (e + 1)) * 10"
      using powi_succ[of "e' - (e + 1)"] by simp
    with a have "a = m * 10 powi (e' - e)" by simp
    with m show ?thesis by blast
  next
    case False
    show ?thesis
    proof (cases "a < 1")
      case True
      with False "1.prems" have r: "sci_normalise (a * 10) (e - 1) = (m, e')"
        by (subst (asm) sci_normalise.simps) simp
      from "1.prems" have "0 < a * 10" by simp
      from "1.IH"(2)[OF False _ this r] True "1.prems"
      have m: "1 \<le> m" "m < 10" and a: "a * 10 = m * 10 powi (e' - (e - 1))" by blast+
      have "(10 :: real) powi (e' - (e - 1)) = 10 powi (e' - e) * 10"
        using powi_succ[of "e' - e"] by (simp add: algebra_simps)
      with a have "a = m * 10 powi (e' - e)" by simp
      with m show ?thesis by blast
    next
      case F2: False
      with False "1.prems" have "m = a" "e' = e"
        by (subst (asm) sci_normalise.simps, simp)+
      with False F2 show ?thesis by simp
    qed
  qed
qed

lemma rint_near: "\<bar>x - of_int (rint x)\<bar> \<le> 1 / 2"
  unfolding rint_def Let_def by (auto simp: abs_le_iff)

lemma rint_ge: "of_int k \<le> x \<Longrightarrow> k \<le> rint x"
  unfolding rint_def Let_def by (auto simp: le_floor_iff) linarith+

lemma rint_le: "x \<le> of_int k \<Longrightarrow> rint x \<le> k"
  unfolding rint_def Let_def by (auto) linarith+

lemma sci_digits_range:
  assumes a: "0 < a" and r: "sci_digits a = (n, e)"
  shows "10 ^ 15 \<le> n \<and> n < 10 ^ 16 \<and> \<bar>a * 10 powi (15 - e) - real n\<bar> \<le> 1 / 2"
proof -
  obtain m e0 where ne: "sci_normalise a 0 = (m, e0)" by (cases "sci_normalise a 0")
  from sci_normalise_range[OF a ne]
  have m: "1 \<le> m" "m < 10" and am: "a = m * 10 powi e0" by simp_all
  define k where "k = rint (m * 10 ^ 15)"
  have "of_int (10 ^ 15) \<le> m * 10 ^ 15" using m by simp
  then have k1: "10 ^ 15 \<le> k" unfolding k_def by (rule rint_ge)
  have "m * 10 ^ 15 \<le> of_int (10 ^ 16)" using m by simp
  then have k2: "k \<le> 10 ^ 16" unfolding k_def by (rule rint_le)
  have near: "\<bar>m * 10 ^ 15 - of_int k\<bar> \<le> 1 / 2" unfolding k_def by (rule rint_near)
  have s15: "a * 10 powi (15 - e0) = m * 10 ^ 15"
  proof -
    have "(10 :: real) powi (e0 + (15 - e0)) = 10 powi e0 * 10 powi (15 - e0)"
      by (rule power_int_add) simp
    then have "(10 :: real) powi e0 * 10 powi (15 - e0) = 10 ^ 15" by simp
    then show ?thesis by (simp only: am mult.assoc)
  qed
  have s14: "a * 10 powi (14 - e0) = m * 10 ^ 14"
  proof -
    have "(10 :: real) powi (e0 + (14 - e0)) = 10 powi e0 * 10 powi (14 - e0)"
      by (rule power_int_add) simp
    then have "(10 :: real) powi e0 * 10 powi (14 - e0) = 10 ^ 14" by simp
    then show ?thesis by (simp only: am mult.assoc)
  qed
  have sd: "sci_digits a = (if nat k = 10 ^ 16 then (10 ^ 15, e0 + 1) else (nat k, e0))"
    by (simp only: sci_digits_def ne prod.case Let_def k_def)
  show ?thesis
  proof (cases "k = 10 ^ 16")
    case True
    then have "nat k = 10 ^ 16" by simp
    with r sd have "n = 10 ^ 15" "e = e0 + 1" by simp_all
    moreover have "\<bar>m * 10 ^ 14 - 10 ^ 15\<bar> \<le> 1 / 2" using near m True by (simp add: abs_le_iff)
    ultimately show ?thesis by (simp add: s14)
  next
    case False
    have nk: "nat k \<noteq> 10 ^ 16"
    proof
      assume "nat k = 10 ^ 16"
      then have "int (nat k) = 10 ^ 16" by simp
      with k1 False show False by simp
    qed
    with r sd have n: "n = nat k" "e = e0" by simp_all
    from k1 have rn: "real n = of_int k" by (simp add: n)
    from k1 have n1: "10 ^ 15 \<le> n" unfolding n by (simp add: le_nat_iff)
    from k1 k2 False have n2: "n < 10 ^ 16" unfolding n by (simp add: nat_less_iff)
    from n1 n2 near show ?thesis by (simp add: s15 n(2) rn)
  qed
qed

lemma digit_char_val: "k < 10 \<Longrightarrow> (of_char (digit_char k) :: nat) = 48 + k"
proof -
  assume "k < 10"
  then have "k = 0 \<or> k = 1 \<or> k = 2 \<or> k = 3 \<or> k = 4 \<or> k = 5 \<or> k = 6 \<or> k = 7 \<or> k = 8 \<or> k = 9"
    by arith
  then show ?thesis by (elim disjE) (simp_all add: digit_char_def)
qed

lemma digit_char_is_digit: "k < 10 \<Longrightarrow> is_digit (digit_char k)"
  by (simp add: is_digit_def digit_char_val)

lemma show_nat_is_digit: "list_all is_digit (show_nat n)"
proof (induction n rule: show_nat.induct)
  case (1 n)
  show ?case
  proof (cases "n < 10")
    case True
    then show ?thesis by (subst show_nat.simps) (simp add: digit_char_is_digit)
  next
    case False
    with 1 show ?thesis by (subst show_nat.simps) (simp add: digit_char_is_digit)
  qed
qed

lemma digits_nat_snoc: "digits_nat (s @ [c]) = 10 * digits_nat s + (of_char c - 48)"
  by (simp add: digits_nat_def)

lemma digits_nat_show_nat: "digits_nat (show_nat n) = n"
proof (induction n rule: show_nat.induct)
  case (1 n)
  show ?case
  proof (cases "n < 10")
    case True
    then show ?thesis by (subst show_nat.simps) (simp add: digits_nat_def digit_char_val)
  next
    case False
    with 1 have "digits_nat (show_nat (n div 10)) = n div 10" by simp
    with False show ?thesis
      by (subst show_nat.simps) (simp add: digits_nat_snoc digit_char_val)
  qed
qed

lemma length_show_nat: "10 ^ k \<le> n \<Longrightarrow> n < 10 ^ Suc k \<Longrightarrow> length (show_nat n) = Suc k"
proof (induction k arbitrary: n)
  case 0
  then show ?case by (subst show_nat.simps) simp
next
  case (Suc k)
  have a: "10 * 10 ^ k \<le> n" using Suc.prems by simp
  have b: "(1 :: nat) \<le> 10 ^ k" by simp
  from a b have ge: "\<not> n < 10" by linarith
  from Suc.prems have 1: "10 ^ k \<le> n div 10"
    by (simp add: less_eq_div_iff_mult_less_eq mult.commute)
  from Suc.prems have 2: "n div 10 < 10 ^ Suc k"
    by (simp add: div_less_iff_less_mult mult.commute)
  from Suc.IH[OF 1 2] ge show ?case by (subst show_nat.simps) simp
qed

lemma length_show_nat_ge: "1 \<le> length (show_nat n)"
  by (subst show_nat.simps) simp

lemma digits_nat_zero: "digits_nat (CHR ''0'' # s) = digits_nat s"
  by (simp add: digits_nat_def)

lemma digits_nat_bound: "list_all is_digit s \<Longrightarrow> digits_nat s < 10 ^ length s"
proof (induction s rule: rev_induct)
  case Nil
  show ?case by (simp add: digits_nat_def)
next
  case (snoc c s)
  then have IH: "digits_nat s < 10 ^ length s" and c: "is_digit c" by simp_all
  from c have "(of_char c :: nat) - 48 \<le> 9" unfolding is_digit_def Let_def by linarith
  moreover from IH have "10 * digits_nat s + 10 \<le> 10 * 10 ^ length s" by simp
  ultimately show ?case by (simp add: digits_nat_snoc)
qed

lemma length_show_nat_ge2: "10 \<le> n \<Longrightarrow> 2 \<le> length (show_nat n)"
  using length_show_nat_ge[of "n div 10"] by (subst show_nat.simps) simp

lemma exponent_field:
  fixes e :: int
  defines "es \<equiv> (if \<bar>e\<bar> < 10 then ''0'' else []) @ show_nat (nat \<bar>e\<bar>)"
  shows "2 \<le> length es \<and> list_all is_digit es \<and> int (digits_nat es) = \<bar>e\<bar>"
proof (cases "\<bar>e\<bar> < 10")
  case True
  then show ?thesis
    using length_show_nat_ge[of "nat \<bar>e\<bar>"]
    by (simp add: es_def show_nat_is_digit digits_nat_zero digits_nat_show_nat is_digit_def)
next
  case False
  then have "10 \<le> nat \<bar>e\<bar>" by simp
  from length_show_nat_ge2[OF this] False show ?thesis
    by (simp add: es_def show_nat_is_digit digits_nat_show_nat)
qed

lemma fmt_e_field:
  "\<exists>s d ds t es.
     fmt_e x = s # d # CHR ''.'' # ds @ CHR ''e'' # t # es \<and>
     s = (if x < 0 then CHR ''-'' else CHR ''+'') \<and>
     is_digit d \<and> (d = CHR ''0'') = (x = 0) \<and> length ds = 15 \<and> list_all is_digit ds \<and>
     (t = CHR ''-'' \<or> t = CHR ''+'') \<and> 2 \<le> length es \<and> list_all is_digit es \<and>
     \<bar>\<bar>x\<bar> * 10 powi (15 - (if t = CHR ''-'' then - int (digits_nat es) else int (digits_nat es)))
        - real (digits_nat (d # ds))\<bar> \<le> 1 / 2"
proof (cases "x = 0")
  case True
  have f: "fmt_e x = CHR ''+'' # CHR ''0'' # CHR ''.'' # ''000000000000000'' @ CHR ''e'' # CHR ''+'' # ''00''"
    by (simp add: fmt_e_def True)
  have z: "digits_nat ''00'' = 0" "digits_nat (CHR ''0'' # ''000000000000000'') = 0"
    by (simp_all add: digits_nat_def)
  show ?thesis
    apply (rule exI [of _ "CHR ''+''"], rule exI [of _ "CHR ''0''"],
        rule exI [of _ "''000000000000000''"], rule exI [of _ "CHR ''+''"], rule exI [of _ "''00''"])
    using f z by (simp add: True is_digit_def)
next
  case False
  obtain n e where ne: "sci_digits \<bar>x\<bar> = (n, e)" by (cases "sci_digits \<bar>x\<bar>")
  from False have "0 < \<bar>x\<bar>" by simp
  from sci_digits_range[OF this ne]
  have n1: "10 ^ 15 \<le> n" and n2: "n < 10 ^ 16"
    and near: "\<bar>\<bar>x\<bar> * 10 powi (15 - e) - real n\<bar> \<le> 1 / 2" by simp_all
  from n1 n2 have len: "length (show_nat n) = 16" using length_show_nat[of 15 n] by simp
  then obtain d ds where dds: "show_nat n = d # ds" by (cases "show_nat n") simp_all
  with len have lds: "length ds = 15" by simp
  from show_nat_is_digit[of n] dds have dig: "is_digit d" "list_all is_digit ds" by simp_all
  have val: "digits_nat (d # ds) = n" using digits_nat_show_nat[of n] by (simp add: dds)
  have d0: "d \<noteq> CHR ''0''"
  proof
    assume "d = CHR ''0''"
    with val have "digits_nat ds = n" by (simp add: digits_nat_zero)
    with digits_nat_bound[OF dig(2)] lds n1 show False by simp
  qed
  define es where "es = (if \<bar>e\<bar> < 10 then ''0'' else []) @ show_nat (nat \<bar>e\<bar>)"
  from exponent_field[of e]
  have es: "2 \<le> length es" "list_all is_digit es" "int (digits_nat es) = \<bar>e\<bar>"
    by (simp_all add: es_def)
  define t where "t = (if e < 0 then CHR ''-'' else CHR ''+'')"
  have ex: "(if t = CHR ''-'' then - int (digits_nat es) else int (digits_nat es)) = e"
    by (simp add: t_def es(3))
  have f: "fmt_e x = (if x < 0 then CHR ''-'' else CHR ''+'') # d # CHR ''.'' # ds @ CHR ''e'' # t # es"
    by (simp add: fmt_e_def False ne dds t_def es_def)
  show ?thesis
    apply (rule exI [of _ "if x < 0 then CHR ''-'' else CHR ''+''"], rule exI [of _ d],
        rule exI [of _ ds], rule exI [of _ t], rule exI [of _ es])
    using f dig lds d0 False es near
    by (simp only: ex val) (simp add: t_def)
qed

text \<open>
  Claim C7, as the code has it. The file starts with the three header lines. The node
  section has the number of points and one line for each point: its position in the array
  plus one, and the three coordinates. A coordinate is written as a sign, one digit, the
  decimal point, fifteen digits, the letter \<^verbatim>\<open>e\<close>, the sign of the exponent and at
  least two digits of it; the first digit is \<open>0\<close> only for the coordinate \<open>0\<close>, and the
  sixteen digits are the value rounded to sixteen significant digits: with the exponent
  read back, they differ from the scaled value by at most half a unit of the last digit.
  The element section has the number of faces and one line for each face that has a
  marker. The fields of an element line are: the position of the face plus one; the
  element type \<open>2\<close>; the number of tags \<open>2\<close>; the first tag, which is the marker of the
  face if it is positive and \<open>-1\<close> otherwise; the second tag, which is always \<open>0\<close>; and
  the three node ids, each the stored index plus one in 32-bit arithmetic (the index plus
  one unless the index is \<open>2\<^sup>3\<^sup>1 - 1\<close>).
\<close>

theorem write_msh_format:
  "write_msh mesh =
     ''$MeshFormat\<newline>2.2 0 8\<newline>$EndMeshFormat\<newline>'' @
     ''$Nodes\<newline>'' @ show_int (int (length (mesh_points mesh))) @ ''\<newline>'' @
     concat (map (\<lambda>i. case mesh_points mesh ! i of (x, y, z) \<Rightarrow>
                    show_int (int i + 1) @ '' '' @ fmt_e x @ '' '' @ fmt_e y @ '' '' @ fmt_e z @
                    ''\<newline>'')
               [0..<length (mesh_points mesh)]) @
     ''$EndNodes\<newline>'' @
     ''$Elements\<newline>'' @ show_int (int (length (mesh_faces mesh))) @ ''\<newline>'' @
     concat (map (\<lambda>i. case mesh_faces mesh ! i of (a, b, c) \<Rightarrow>
                    element_line i (a + 1, b + 1, c + 1) (mesh_face_markers mesh ! i))
               [0..<min (length (mesh_faces mesh)) (length (mesh_face_markers mesh))]) @
     ''$EndElements\<newline>'' \<and>
   (\<forall>x. \<exists>s d ds t es.
      fmt_e x = s # d # CHR ''.'' # ds @ CHR ''e'' # t # es \<and>
      s = (if x < 0 then CHR ''-'' else CHR ''+'') \<and>
      is_digit d \<and> (d = CHR ''0'') = (x = 0) \<and> length ds = 15 \<and> list_all is_digit ds \<and>
      (t = CHR ''-'' \<or> t = CHR ''+'') \<and> 2 \<le> length es \<and> list_all is_digit es \<and>
      \<bar>\<bar>x\<bar> * 10 powi (15 - (if t = CHR ''-'' then - int (digits_nat es) else int (digits_nat es)))
         - real (digits_nat (d # ds))\<bar> \<le> 1 / 2) \<and>
   (\<forall>i a b c m.
      split_on (CHR '' '') (butlast (element_line i (a + 1, b + 1, c + 1) m)) =
        [show_int (int i + 1), ''2'', ''2'', show_int (if 0 < sint m then sint m else - 1), ''0'',
         show_int (sint (a + 1)), show_int (sint (b + 1)), show_int (sint (c + 1))]) \<and>
   (\<forall>a :: int32. sint a \<noteq> 2 ^ 31 - 1 \<longrightarrow> sint (a + 1) = sint a + 1)"
proof (intro conjI allI impI)
  let ?faces = "map (\<lambda>(a, b, c). (a + 1, b + 1, c + 1)) (mesh_faces mesh)"
  have nodes: "map (\<lambda>(i, p). node_line i p) (enumerate 0 (mesh_points mesh)) =
      map (\<lambda>i. case mesh_points mesh ! i of (x, y, z) \<Rightarrow>
                    show_int (int i + 1) @ '' '' @ fmt_e x @ '' '' @ fmt_e y @ '' '' @ fmt_e z @
                    ''\<newline>'') [0..<length (mesh_points mesh)]"
    unfolding map_enumerate_nth by (simp add: node_line_def)
  have "map (\<lambda>(i, (fac, m)). element_line i fac m) (enumerate 0 (zip ?faces (mesh_face_markers mesh))) =
      map (\<lambda>i. case zip ?faces (mesh_face_markers mesh) ! i of (fac, m) \<Rightarrow> element_line i fac m)
        [0..<length (zip ?faces (mesh_face_markers mesh))]"
    by (rule map_enumerate_nth)
  also have "\<dots> = map (\<lambda>i. case mesh_faces mesh ! i of (a, b, c) \<Rightarrow>
                    element_line i (a + 1, b + 1, c + 1) (mesh_face_markers mesh ! i))
               [0..<min (length (mesh_faces mesh)) (length (mesh_face_markers mesh))]"
    by (rule nth_equalityI) (auto split: prod.splits)
  finally have elems: "map (\<lambda>(i, (fac, m)). element_line i fac m)
        (enumerate 0 (zip ?faces (mesh_face_markers mesh))) =
      map (\<lambda>i. case mesh_faces mesh ! i of (a, b, c) \<Rightarrow>
                    element_line i (a + 1, b + 1, c + 1) (mesh_face_markers mesh ! i))
               [0..<min (length (mesh_faces mesh)) (length (mesh_face_markers mesh))]" .
  show "write_msh mesh =
     ''$MeshFormat\<newline>2.2 0 8\<newline>$EndMeshFormat\<newline>'' @
     ''$Nodes\<newline>'' @ show_int (int (length (mesh_points mesh))) @ ''\<newline>'' @
     concat (map (\<lambda>i. case mesh_points mesh ! i of (x, y, z) \<Rightarrow>
                    show_int (int i + 1) @ '' '' @ fmt_e x @ '' '' @ fmt_e y @ '' '' @ fmt_e z @
                    ''\<newline>'')
               [0..<length (mesh_points mesh)]) @
     ''$EndNodes\<newline>'' @
     ''$Elements\<newline>'' @ show_int (int (length (mesh_faces mesh))) @ ''\<newline>'' @
     concat (map (\<lambda>i. case mesh_faces mesh ! i of (a, b, c) \<Rightarrow>
                    element_line i (a + 1, b + 1, c + 1) (mesh_face_markers mesh ! i))
               [0..<min (length (mesh_faces mesh)) (length (mesh_face_markers mesh))]) @
     ''$EndElements\<newline>''"
    unfolding write_msh_def Let_def nodes elems by simp
next
  fix x :: real
  show "\<exists>s d ds t es.
      fmt_e x = s # d # CHR ''.'' # ds @ CHR ''e'' # t # es \<and>
      s = (if x < 0 then CHR ''-'' else CHR ''+'') \<and>
      is_digit d \<and> (d = CHR ''0'') = (x = 0) \<and> length ds = 15 \<and> list_all is_digit ds \<and>
      (t = CHR ''-'' \<or> t = CHR ''+'') \<and> 2 \<le> length es \<and> list_all is_digit es \<and>
      \<bar>\<bar>x\<bar> * 10 powi (15 - (if t = CHR ''-'' then - int (digits_nat es) else int (digits_nat es)))
         - real (digits_nat (d # ds))\<bar> \<le> 1 / 2"
    by (rule fmt_e_field)
next
  fix i a b c m
  show "split_on (CHR '' '') (butlast (element_line i (a + 1, b + 1, c + 1) m)) =
        [show_int (int i + 1), ''2'', ''2'', show_int (if 0 < sint m then sint m else - 1), ''0'',
         show_int (sint (a + 1)), show_int (sint (b + 1)), show_int (sint (c + 1))]"
    by (rule element_line_fields)
next
  fix a :: int32 assume "sint a \<noteq> 2 ^ 31 - 1"
  then show "sint (a + 1) = sint a + 1" by (rule sint_succ)
qed

text \<open>A mesh of three points and two faces, one of them without a positive marker.\<close>

theorem write_msh_format_witness:
  "sint (2 :: int32) \<noteq> 2 ^ 31 - 1 \<and> sint (2 + 1 :: int32) = sint (2 :: int32) + 1 \<and>
   write_msh
     \<lparr>mesh_points = [(0, 0, 0), (1, 0, 0), (1 / 2, - 1 / 4, 1024)], mesh_elements = [],
      mesh_faces = [(0, 1, 2), (2, 1, 0)], mesh_face_markers = [5, 0],
      mesh_adjacent_elements = []\<rparr> =
   ''$MeshFormat\<newline>2.2 0 8\<newline>$EndMeshFormat\<newline>$Nodes\<newline>3\<newline>'' @
   ''1 +0.000000000000000e+00 +0.000000000000000e+00 +0.000000000000000e+00\<newline>'' @
   ''2 +1.000000000000000e+00 +0.000000000000000e+00 +0.000000000000000e+00\<newline>'' @
   ''3 +5.000000000000000e-01 -2.500000000000000e-01 +1.024000000000000e+03\<newline>'' @
   ''$EndNodes\<newline>$Elements\<newline>2\<newline>'' @
   ''1 2 2 5 0 1 2 3\<newline>'' @
   ''2 2 2 -1 0 3 2 1\<newline>'' @
   ''$EndElements\<newline>''"
proof -
  have c: "fmt_e 0 = ''+0.000000000000000e+00''" "fmt_e 1 = ''+1.000000000000000e+00''"
    "fmt_e (1 / 2) = ''+5.000000000000000e-01''" "fmt_e (- (1 / 4)) = ''-2.500000000000000e-01''"
    "fmt_e 1024 = ''+1.024000000000000e+03''"
    by (simp_all add: fmt_e_def sci_digits_def sci_normalise.simps rint_def show_nat.simps
        digit_char_def)
  note format = write_msh_format
    [of "\<lparr>mesh_points = [(0, 0, 0), (1, 0, 0), (1 / 2, - 1 / 4, 1024)], mesh_elements = [],
          mesh_faces = [(0, 1, 2), (2, 1, 0)], mesh_face_markers = [5, 0],
          mesh_adjacent_elements = []\<rparr>"]
  from format have ids: "sint (2 :: int32) \<noteq> 2 ^ 31 - 1 \<longrightarrow> sint (2 + 1 :: int32) = sint (2 :: int32) + 1"
    by blast
  from format [THEN conjunct1] ids show ?thesis
    by (simp add: upt_conv_Cons element_line_def show_int_def show_nat.simps digit_char_def c)
qed

text \<open>
  The claim as stated fails at the tags and at the digits. For a face with the nodes
  \<open>0, 1, 2\<close> and the marker \<open>5\<close> the line is \<^verbatim>\<open>1 2 2 5 0 1 2 3\<close>: the marker is the
  first of the two tags, and the second tag is \<open>0\<close>. The coordinates \<open>1\<close> and
  \<open>1 + 5 / 2\<^sup>5\<^sup>2\<close> are both \<open>1.00000000000000\<close> at fifteen significant digits (they
  differ by less than half a unit of the fifteenth digit); they are written with sixteen
  digits, which differ in the last one.
\<close>

theorem write_msh_second_tag_is_zero:
  "element_line 0 (0 + 1, 1 + 1, 2 + 1) 5 = ''1 2 2 5 0 1 2 3\<newline>'' \<and>
   split_on (CHR '' '') ''1 2 2 5 0 1 2 3'' ! 3 = show_int (sint (5 :: int32)) \<and>
   split_on (CHR '' '') ''1 2 2 5 0 1 2 3'' ! 4 = ''0'' \<and>
   split_on (CHR '' '') ''1 2 2 5 0 1 2 3'' ! 4 \<noteq> show_int (sint (5 :: int32)) \<and>
   fmt_e 1 = ''+1.000000000000000e+00'' \<and>
   fmt_e (1 + 5 / 2 ^ 52) = ''+1.000000000000001e+00'' \<and>
   \<bar>(1 + 5 / 2 ^ 52) - 1\<bar> < (5 / 10 ^ 15 :: real)"
  by (simp add: element_line_def show_int_def show_nat.simps digit_char_def
      fmt_e_def sci_digits_def sci_normalise.simps rint_def)

section \<open>Diagnostics extraction\<close>

lemma readline_line:
  "CHR 0x0A \<notin> set x \<Longrightarrow> readline (x @ CHR 0x0A # rest) = (x @ [CHR 0x0A], rest)"
  by (induction x) auto

lemma readline_append: "fst (readline f) @ snd (readline f) = f"
  by (induction f) auto

lemma extract_stats_skip:
  assumes "CHR 0x0A \<notin> set x" and "decode_ascii (x @ [CHR 0x0A]) = Inr (x @ [CHR 0x0A])"
    and "\<not> contains ''Statistics:'' (x @ [CHR 0x0A])"
  shows "extract_stats ((x @ [CHR 0x0A]) @ rest) = extract_stats rest"
  using assms by (subst extract_stats.simps) (simp add: readline_line)

lemma extract_stats_hit:
  assumes "CHR 0x0A \<notin> set x" and "decode_ascii (x @ [CHR 0x0A]) = Inr (x @ [CHR 0x0A])"
    and "contains ''Statistics:'' (x @ [CHR 0x0A])"
  shows "extract_stats ((x @ [CHR 0x0A]) @ rest) = Some (stats_summary rest)"
  using assms by (subst extract_stats.simps) (simp add: readline_line)

lemma extract_stats_skip_lines:
  assumes "\<forall>line \<in> set pre. (\<exists>x. line = x @ [CHR 0x0A] \<and> CHR 0x0A \<notin> set x) \<and>
             decode_ascii line = Inr line \<and> \<not> contains ''Statistics:'' line"
  shows "extract_stats (concat pre @ rest) = extract_stats rest"
  using assms
proof (induction pre)
  case Nil
  then show ?case by simp
next
  case (Cons line pre)
  then obtain x where x: "line = x @ [CHR 0x0A]" "CHR 0x0A \<notin> set x" by auto
  have "extract_stats (concat (line # pre) @ rest) = extract_stats ((x @ [CHR 0x0A]) @ (concat pre @ rest))"
    by (simp add: x)
  also have "\<dots> = extract_stats (concat pre @ rest)"
    using Cons.prems x by (intro extract_stats_skip) auto
  also have "\<dots> = extract_stats rest" using Cons.prems by (intro Cons.IH) simp
  finally show ?case .
qed

lemma traverse_length: "traverse f xs = Inr ys \<Longrightarrow> length ys = length xs"
  by (drule traverse_Inr) (rule list_all2_lengthD[symmetric])

lemma length_readlines: "length (readlines n f) = n"
  by (induction n arbitrary: f) auto

lemma stats_summary_cases:
  "stats_summary f =
     (case traverse decode_ascii (readlines 11 f) of
        Inl e \<Rightarrow> Inl e
      | Inr stats \<Rightarrow>
          (case traverse last_token_int (drop 7 stats) of
             Inl e \<Rightarrow> Inl e
           | Inr ns \<Rightarrow>
               Inr (''Built mesh with '' @ show_int (ns ! 0) @ '' points, '' @
                    show_int (ns ! 1) @ '' tetrahedra, '' @ show_int (ns ! 2) @
                    '' faces, and '' @ show_int (ns ! 3) @ '' edges'')))"
proof (cases "traverse decode_ascii (readlines 11 f)")
  case (Inl e)
  then show ?thesis by (simp add: stats_summary_def and_then_def)
next
  case (Inr stats)
  then have len: "length stats = 11" by (simp add: traverse_length length_readlines)
  show ?thesis
  proof (cases "traverse last_token_int (drop 7 stats)")
    case (Inl e)
    with Inr show ?thesis by (simp add: stats_summary_def and_then_def)
  next
    case ns: (Inr ns)
    then have "length ns = 4" using len by (simp add: traverse_length)
    then obtain a b c d where "ns = [a, b, c, d]"
      by (auto simp: length_Suc_conv eval_nat_numeral)
    with Inr ns show ?thesis by (simp add: stats_summary_def and_then_def)
  qed
qed


lemma contains_iff: "contains needle s \<longleftrightarrow> (\<exists>a b. s = a @ needle @ b)"
proof (induction s)
  case Nil
  then show ?case by auto
next
  case (Cons c cs)
  show ?case
  proof
    assume "contains needle (c # cs)"
    then consider "take (length needle) (c # cs) = needle" | "contains needle cs" by auto
    then show "\<exists>a b. c # cs = a @ needle @ b"
    proof cases
      case 1
      then have "c # cs = [] @ needle @ drop (length needle) (c # cs)"
        by (metis append_Nil append_take_drop_id)
      then show ?thesis by blast
    next
      case 2
      with Cons.IH obtain a b where "cs = a @ needle @ b" by auto
      then have "c # cs = (c # a) @ needle @ b" by simp
      then show ?thesis by blast
    qed
  next
    assume "\<exists>a b. c # cs = a @ needle @ b"
    then obtain a b where ab: "c # cs = a @ needle @ b" by auto
    show "contains needle (c # cs)"
    proof (cases a)
      case Nil
      with ab have "take (length needle) (c # cs) = needle" by simp
      then show ?thesis by simp
    next
      case (Cons a0 as)
      with ab have "cs = as @ needle @ b" by simp
      with Cons.IH have "contains needle cs" by blast
      then show ?thesis by simp
    qed
  qed
qed

lemma contains_appendI1: "contains needle xs \<Longrightarrow> contains needle (xs @ ys)"
  unfolding contains_iff by (metis append.assoc)

lemma contains_appendI2: "contains needle ys \<Longrightarrow> contains needle (xs @ ys)"
  unfolding contains_iff by (metis append.assoc)

lemma decode_ascii_Inr: "decode_ascii l = Inr s \<longleftrightarrow> s = l \<and> list_all (\<lambda>c. (of_char c :: nat) < 128) l"
  by (auto simp: decode_ascii_def)

lemma extract_stats_returns_only_with_section:
  assumes "extract_stats f = Some r"
  shows "list_all (\<lambda>c. (of_char c :: nat) < 128) f \<longrightarrow> contains ''Statistics:'' f"
proof (rule extract_stats.raw_induct
    [OF _ assms, where P = "\<lambda>f r. list_all (\<lambda>c. (of_char c :: nat) < 128) f \<longrightarrow>
                                 contains ''Statistics:'' f"])
  fix extract_stats' :: "string \<Rightarrow> (error + string) option" and f r
  assume IH: "\<And>x y. extract_stats' x = Some y \<Longrightarrow>
      list_all (\<lambda>c. (of_char c :: nat) < 128) x \<longrightarrow> contains ''Statistics:'' x"
    and body: "(case decode_ascii (fst (readline f)) of
        Inl e \<Rightarrow> Some (Inl e)
      | Inr s \<Rightarrow>
          if contains ''Statistics:'' s then Some (stats_summary (snd (readline f)))
          else extract_stats' (snd (readline f))) = Some r"
  let ?l = "fst (readline f)" and ?f' = "snd (readline f)"
  have f: "f = ?l @ ?f'" by (simp add: readline_append)
  show "list_all (\<lambda>c. (of_char c :: nat) < 128) f \<longrightarrow> contains ''Statistics:'' f"
  proof
    assume asc: "list_all (\<lambda>c. (of_char c :: nat) < 128) f"
    then have al: "list_all (\<lambda>c. (of_char c :: nat) < 128) ?l"
      and af: "list_all (\<lambda>c. (of_char c :: nat) < 128) ?f'"
      by (subst (asm) f, simp)+
    then have dec: "decode_ascii ?l = Inr ?l" by (simp add: decode_ascii_Inr)
    show "contains ''Statistics:'' f"
    proof (cases "contains ''Statistics:'' ?l")
      case True
      then have "contains ''Statistics:'' (?l @ ?f')" by (rule contains_appendI1)
      then show ?thesis by (simp only: readline_append)
    next
      case False
      with body dec have "extract_stats' ?f' = Some r" by simp
      from IH[OF this] af have "contains ''Statistics:'' ?f'" by blast
      then have "contains ''Statistics:'' (?l @ ?f')" by (rule contains_appendI2)
      then show ?thesis by (simp only: readline_append)
    qed
  qed
qed

lemma extract_stats_never_returns:
  assumes "list_all (\<lambda>c. (of_char c :: nat) < 128) f" and "\<not> contains ''Statistics:'' f"
  shows "extract_stats f = None"
proof (cases "extract_stats f")
  case None
  then show ?thesis .
next
  case (Some r)
  from extract_stats_returns_only_with_section[OF this] assms show ?thesis by blast
qed


lemma readline_Cons:
  "readline (c # cs) =
     (if c = CHR 0x0A then ([c], cs) else case readline cs of (l, r) \<Rightarrow> (c # l, r))"
  by (simp add: split_beta)

lemma readlines_Suc:
  "readlines (Suc n) f = (case readline f of (l, r) \<Rightarrow> l # readlines n r)"
  by (simp add: split_beta)

lemma tetgen_log_lines:
  "readlines 11 ''\<newline>  Input points: 8\<newline>  Input facets: 6\<newline>  Input segments: 12\<newline>  Input holes: 0\<newline>  Input regions: 0\<newline>\<newline>  Mesh points: 8\<newline>  Mesh tetrahedra: 6\<newline>  Mesh faces: 18\<newline>  Mesh edges: 19\<newline>\<newline>'' =
   [''\<newline>'', ''  Input points: 8\<newline>'', ''  Input facets: 6\<newline>'', ''  Input segments: 12\<newline>'',
    ''  Input holes: 0\<newline>'', ''  Input regions: 0\<newline>'', ''\<newline>'', ''  Mesh points: 8\<newline>'',
    ''  Mesh tetrahedra: 6\<newline>'', ''  Mesh faces: 18\<newline>'', ''  Mesh edges: 19\<newline>'']"
  by (simp add: eval_nat_numeral readline_Cons readlines_Suc del: readline.simps(2) readlines.simps(2))

lemma tetgen_log_counts:
  "last_token_int ''  Mesh points: 8\<newline>'' = Inr 8"
  "last_token_int ''  Mesh tetrahedra: 6\<newline>'' = Inr 6"
  "last_token_int ''  Mesh faces: 18\<newline>'' = Inr 18"
  "last_token_int ''  Mesh edges: 19\<newline>'' = Inr 19"
  by (simp_all add: last_token_int_def py_split_def is_space_def py_int_def is_digit_def)

lemma show_int_examples:
  "show_int 8 = ''8''" "show_int 6 = ''6''" "show_int 18 = ''18''" "show_int 19 = ''19''"
  by (simp_all add: show_int_def show_nat.simps digit_char_def)

lemma tetgen_log_summary:
  "stats_summary ''\<newline>  Input points: 8\<newline>  Input facets: 6\<newline>  Input segments: 12\<newline>  Input holes: 0\<newline>  Input regions: 0\<newline>\<newline>  Mesh points: 8\<newline>  Mesh tetrahedra: 6\<newline>  Mesh faces: 18\<newline>  Mesh edges: 19\<newline>\<newline>'' =
   Inr ''Built mesh with 8 points, 6 tetrahedra, 18 faces, and 19 edges''"
  unfolding stats_summary_def tetgen_log_lines
  by (simp add: decode_ascii_def tetgen_log_counts show_int_examples and_then_simps)

text \<open>
  Claim C8, as the code has it. Let the captured log start with complete ASCII lines
  that do not contain \<^verbatim>\<open>Statistics:\<close>, followed by a complete ASCII line that does.
  Then \<^verbatim>\<open>extract_stats\<close> terminates, with the result of parsing what follows that
  line. When the next eleven lines decode as ASCII and each of the last four of them ends
  in an integer token, the result is the summary and the build completes with its mesh.
  Otherwise the exception raised while parsing is the result of
  \<^verbatim>\<open>redirect_tetgen_output\<close>, which has no handler for it: the build is aborted.
\<close>

theorem extract_stats_found:
  assumes pre: "\<forall>line \<in> set pre. (\<exists>x. line = x @ [CHR 0x0A] \<and> CHR 0x0A \<notin> set x) \<and>
             decode_ascii line = Inr line \<and> \<not> contains ''Statistics:'' line"
    and line: "\<exists>x. line = x @ [CHR 0x0A] \<and> CHR 0x0A \<notin> set x"
    and dec: "decode_ascii line = Inr line"
    and hit: "contains ''Statistics:'' line"
  shows "extract_stats (concat pre @ line @ rest) = Some (stats_summary rest) \<and>
         redirect_tetgen_output (Inr (mesh, concat pre @ line @ rest)) =
           (case stats_summary rest of
              Inl e \<Rightarrow> Some (Inl e)
            | Inr s \<Rightarrow> Some (Inr (mesh, s))) \<and>
         stats_summary rest =
           (case traverse decode_ascii (readlines 11 rest) of
              Inl e \<Rightarrow> Inl e
            | Inr stats \<Rightarrow>
                (case traverse last_token_int (drop 7 stats) of
                   Inl e \<Rightarrow> Inl e
                 | Inr ns \<Rightarrow>
                     Inr (''Built mesh with '' @ show_int (ns ! 0) @ '' points, '' @
                          show_int (ns ! 1) @ '' tetrahedra, '' @ show_int (ns ! 2) @
                          '' faces, and '' @ show_int (ns ! 3) @ '' edges'')))"
proof -
  from line obtain x where x: "line = x @ [CHR 0x0A]" "CHR 0x0A \<notin> set x" by auto
  have "extract_stats (concat pre @ line @ rest) = extract_stats (line @ rest)"
    using pre by (rule extract_stats_skip_lines)
  also have "\<dots> = Some (stats_summary rest)"
    unfolding x(1) using x(2) dec hit by (intro extract_stats_hit) (simp_all add: x(1))
  finally have 1: "extract_stats (concat pre @ line @ rest) = Some (stats_summary rest)" .
  have 2: "redirect_tetgen_output (Inr (mesh, concat pre @ line @ rest)) =
           (case stats_summary rest of
              Inl e \<Rightarrow> Some (Inl e)
            | Inr s \<Rightarrow> Some (Inr (mesh, s)))"
    by (simp add: redirect_tetgen_output_def 1)
  from 1 2 stats_summary_cases[of rest] show ?thesis by blast
qed

text \<open>The log of a run of the engine on a cube, and the summary made from it.\<close>

theorem extract_stats_found_witness:
  "redirect_tetgen_output (Inr ((),
      ''Delaunizing vertices...\<newline>Statistics:\<newline>\<newline>  Input points: 8\<newline>  Input facets: 6\<newline>  Input segments: 12\<newline>  Input holes: 0\<newline>  Input regions: 0\<newline>\<newline>  Mesh points: 8\<newline>  Mesh tetrahedra: 6\<newline>  Mesh faces: 18\<newline>  Mesh edges: 19\<newline>\<newline>''))
   = Some (Inr ((), ''Built mesh with 8 points, 6 tetrahedra, 18 faces, and 19 edges''))"
proof -
  have 1: "\<exists>x. ''Delaunizing vertices...\<newline>'' = x @ [CHR 0x0A] \<and> CHR 0x0A \<notin> set x"
    by (rule exI [of _ "''Delaunizing vertices...''"]) simp
  have 2: "\<exists>x. ''Statistics:\<newline>'' = x @ [CHR 0x0A] \<and> CHR 0x0A \<notin> set x"
    by (rule exI [of _ "''Statistics:''"]) simp
  show ?thesis
    using 1 2 extract_stats_found [of "[''Delaunizing vertices...\<newline>'']" "''Statistics:\<newline>''"
      "''\<newline>  Input points: 8\<newline>  Input facets: 6\<newline>  Input segments: 12\<newline>  Input holes: 0\<newline>  Input regions: 0\<newline>\<newline>  Mesh points: 8\<newline>  Mesh tetrahedra: 6\<newline>  Mesh faces: 18\<newline>  Mesh edges: 19\<newline>\<newline>''" "()"]
    by (simp add: decode_ascii_def tetgen_log_summary and_then_simps del: readline.simps(2))
qed

text \<open>
  The claim as stated fails when the section is cut short. The engine returns a mesh and
  its log ends right after the line \<^verbatim>\<open>Statistics:\<close>; the eleven lines read after it
  are empty, \<^verbatim>\<open>sl.split()[-1]\<close> raises \<^verbatim>\<open>IndexError\<close>, and this is the result of
  the whole build.
\<close>

theorem build_tetmesh_aborts_on_short_statistics:
  "build_tetmesh (\<lambda>pts facets markers holes config. Inr ((), ''Statistics:\<newline>''))
     (1 / 10 ^ 10) \<lparr>L = (1, 1, 1)\<rparr> []
     [\<lparr>points = [], tris = []\<rparr>, \<lparr>points = [], tris = []\<rparr>, \<lparr>points = [], tris = []\<rparr>]
     \<lparr>tetgen_rad_edge_ratio = 2, tetgen_min_angle = 0, tetgen_max_volume = 1\<rparr>
   = Some (Inl IndexError)"
proof -
  have e: "extract_stats ''Statistics:\<newline>'' = Some (Inl IndexError)"
    by (subst extract_stats.simps)
     (simp add: decode_ascii_def stats_summary_def and_then_def last_token_int_def py_split_def
        eval_nat_numeral)
  let ?e = "\<lparr>points = [] :: point list, tris = [] :: tri list\<rparr>"
  have d: "duplicate_lower_boundaries \<lparr>L = (1, 1, 1)\<rparr> [?e, ?e, ?e] = [?e, ?e, ?e, ?e, ?e, ?e]"
    by (simp add: duplicate_lower_boundaries_def enumerate_eq_zip upt_conv_Cons)
  have m: "build_point_list (1 / 10 ^ 10) \<lparr>L = (1, 1, 1)\<rparr> []
       (duplicate_lower_boundaries \<lparr>L = (1, 1, 1)\<rparr> [?e, ?e, ?e]) =
     Inr ([], [], [?e, ?e, ?e, ?e, ?e, ?e])"
    unfolding d
    by (simp add: build_point_list_def Let_def query_pairs_def build_dup_def dict_of_def
        and_then_def traverse_tris_def)
  have f: "build_facet_list [] [?e, ?e, ?e, ?e, ?e, ?e] = Inr ([], [])"
    by (simp add: build_facet_list_def)
  show ?thesis
    unfolding build_tetmesh_points [OF m f]
    by (simp add: redirect_tetgen_output_def e)
qed

end
